theory Spec2Isabelle
  imports Main
begin

section \<open>The CLOCK-Pro cache of \<^verbatim>\<open>clockpro.go\<close>\<close>

text \<open>
  The model follows \<^verbatim>\<open>src/clockpro.go\<close>. Go pointers are addresses (natural numbers):
  an \<^verbatim>\<open>*list.Element\<close> is an \<open>eptr\<close>, a \<^verbatim>\<open>*metaEntry\<close> is an \<open>mptr\<close>, and a
  possibly-nil pointer is an \<open>option\<close>. The \<^verbatim>\<open>container/list\<close> list is the sequence of
  its elements, front first; an element that was removed is one that is no longer in
  the sequence (Go clears its \<^verbatim>\<open>list\<close> field, so \<^verbatim>\<open>Next\<close> and \<^verbatim>\<open>Prev\<close> return nil
  for it, while its \<^verbatim>\<open>Value\<close> stays readable). Go's \<^verbatim>\<open>int\<close> is modelled by \<open>int\<close>:
  the counters and indices are bounded by the number of nodes and never wrap.
  \<^verbatim>\<open>DEBUG\<close> is false (its initial value), so \<^verbatim>\<open>TRACE\<close> and \<^verbatim>\<open>VerifyIdxs\<close> do nothing.
\<close>

subsection \<open>Data\<close>

datatype pageType = ptTest | ptCold | ptHot

text \<open>The field \<^verbatim>\<open>val interface{}\<close>: \<open>None\<close> is the nil interface value.\<close>

record 'v metaEntry =
  ptype :: pageType
  key :: string
  val :: "'v option"
  ref :: bool

type_synonym eptr = nat
type_synonym mptr = nat

text \<open>A run-time panic: a nil pointer dereference, or the explicit panic of \<^verbatim>\<open>meta_del\<close>.\<close>

datatype error = NilDeref | KeyNotPresent

text \<open>
  The struct \<^verbatim>\<open>Cache\<close>, followed by the heap it points into: \<open>elt_value\<close> is the
  \<^verbatim>\<open>Value\<close> field of every element ever allocated, \<open>entries\<close> the contents of every
  \<^verbatim>\<open>metaEntry\<close>, and \<open>next_elt\<close>, \<open>next_entry\<close> the next fresh addresses.
  A map entry of \<open>metaKeys\<close> may hold a nil pointer (\<open>Some None\<close>).
\<close>

record 'v Cache =
  mem_max :: int
  mem_cold :: int
  meta :: "eptr list"
  metaKeys :: "string \<Rightarrow> eptr option option"
  hand_pos_hot :: "eptr option"
  hand_pos_cold :: "eptr option"
  hand_pos_test :: "eptr option"
  hand_idx_hot :: int
  hand_idx_cold :: int
  hand_idx_test :: int
  count_hot :: int
  count_cold :: int
  count_test :: int
  elt_value :: "eptr \<Rightarrow> mptr"
  entries :: "mptr \<Rightarrow> 'v metaEntry"
  next_elt :: eptr
  next_entry :: mptr

subsection \<open>The operations of \<^verbatim>\<open>container/list\<close> that the cache uses\<close>

text \<open>The number of elements in front of \<open>e\<close>; the length of the list when \<open>e\<close> is not in it.\<close>

fun find_idx :: "eptr list \<Rightarrow> eptr \<Rightarrow> nat" where
  "find_idx [] e = 0"
| "find_idx (x # xs) e = (if x = e then 0 else Suc (find_idx xs e))"

definition Front :: "eptr list \<Rightarrow> eptr option" where
  "Front xs = (case xs of [] \<Rightarrow> None | x # _ \<Rightarrow> Some x)"

definition Back :: "eptr list \<Rightarrow> eptr option" where
  "Back xs = (if xs = [] then None else Some (last xs))"

text \<open>\<^verbatim>\<open>e.Next()\<close> and \<^verbatim>\<open>e.Prev()\<close> for a non-nil \<open>e\<close>: nil at the end of the list and for a removed element.\<close>

definition elt_Next :: "eptr list \<Rightarrow> eptr \<Rightarrow> eptr option" where
  "elt_Next xs e =
     (if e \<in> set xs \<and> Suc (find_idx xs e) < length xs then Some (xs ! Suc (find_idx xs e)) else None)"

definition elt_Prev :: "eptr list \<Rightarrow> eptr \<Rightarrow> eptr option" where
  "elt_Prev xs e =
     (if e \<in> set xs \<and> 0 < find_idx xs e then Some (xs ! (find_idx xs e - 1)) else None)"

text \<open>The same on a pointer that may be nil: calling a method that reads a field of nil panics.\<close>

definition hand_Next :: "eptr list \<Rightarrow> eptr option \<Rightarrow> error + eptr option" where
  "hand_Next xs h = (case h of None \<Rightarrow> Inl NilDeref | Some e \<Rightarrow> Inr (elt_Next xs e))"

definition hand_Prev :: "eptr list \<Rightarrow> eptr option \<Rightarrow> error + eptr option" where
  "hand_Prev xs h = (case h of None \<Rightarrow> Inl NilDeref | Some e \<Rightarrow> Inr (elt_Prev xs e))"

text \<open>\<^verbatim>\<open>l.InsertBefore(v, mark)\<close> with the new element \<open>n\<close>: nothing happens when \<open>mark\<close> is not in the list.\<close>

definition InsertBefore :: "eptr list \<Rightarrow> eptr \<Rightarrow> eptr \<Rightarrow> eptr list" where
  "InsertBefore xs n mark =
     (if mark \<in> set xs then take (find_idx xs mark) xs @ n # drop (find_idx xs mark) xs else xs)"

subsection \<open>Sequencing of calls that may panic or not return\<close>

definition bindE :: "error + 'a \<Rightarrow> ('a \<Rightarrow> error + 'b) \<Rightarrow> error + 'b" where
  "bindE m f = (case m of Inl e \<Rightarrow> Inl e | Inr x \<Rightarrow> f x)"

text \<open>\<open>None\<close> is a call that does not return, \<open>Some (Inl e)\<close> a panic, \<open>Some (Inr c)\<close> a normal return.\<close>

definition bindR :: "(error + 'a) option \<Rightarrow> ('a \<Rightarrow> (error + 'b) option) \<Rightarrow> (error + 'b) option" where
  "bindR m f = (case m of None \<Rightarrow> None | Some r \<Rightarrow> (case r of Inl e \<Rightarrow> Some (Inl e) | Inr x \<Rightarrow> f x))"

subsection \<open>\<^verbatim>\<open>New\<close> and \<^verbatim>\<open>Get\<close>\<close>

definition New :: "int \<Rightarrow> 'v Cache" where
  "New sz =
     \<lparr>mem_max = sz, mem_cold = sz, meta = [], metaKeys = (\<lambda>_. None),
      hand_pos_hot = None, hand_pos_cold = None, hand_pos_test = None,
      hand_idx_hot = 0, hand_idx_cold = 0, hand_idx_test = 0,
      count_hot = 0, count_cold = 0, count_test = 0,
      elt_value = (\<lambda>_. 0),
      entries = (\<lambda>_. \<lparr>ptype = ptTest, key = [], val = None, ref = False\<rparr>),
      next_elt = 0, next_entry = 0\<rparr>"

text \<open>\<^verbatim>\<open>c.metaKeys[key]\<close>: nil for a missing key.\<close>

definition lookup_elt :: "'v Cache \<Rightarrow> string \<Rightarrow> eptr option" where
  "lookup_elt c k = (case metaKeys c k of None \<Rightarrow> None | Some v \<Rightarrow> v)"

text \<open>\<^verbatim>\<open>Get\<close> returns the value (nil for a miss) and the cache it leaves behind.\<close>

definition Get :: "'v Cache \<Rightarrow> string \<Rightarrow> 'v Cache \<times> 'v option" where
  "Get c k =
     (case lookup_elt c k of
        None \<Rightarrow> (c, None)
      | Some v \<Rightarrow>
          (let m = elt_value c v in
           if val (entries c m) = None then (c, None)
           else (c\<lparr>entries := (entries c)(m := (entries c m)\<lparr>ref := True\<rparr>)\<rparr>, val (entries c m))))"

subsection \<open>\<^verbatim>\<open>meta_del\<close>\<close>

text \<open>A hand that points at the element to delete steps back, to the back of the list from the front.\<close>

definition retreat :: "eptr list \<Rightarrow> eptr option \<Rightarrow> eptr option \<Rightarrow> error + eptr option" where
  "retreat xs elt h =
     (if elt = h then
        bindE (hand_Prev xs h) (\<lambda>p. Inr (case p of None \<Rightarrow> Back xs | Some q \<Rightarrow> Some q))
      else Inr h)"

definition shift_idx :: "int \<Rightarrow> int \<Rightarrow> int \<Rightarrow> int" where
  "shift_idx idx max_pos i = (if i \<ge> idx then (if i - 1 < 0 then max_pos else i - 1) else i)"

definition meta_del :: "'v Cache \<Rightarrow> string \<Rightarrow> error + 'v Cache" where
  "meta_del c k =
     (case metaKeys c k of
        None \<Rightarrow> Inl KeyNotPresent
      | Some elt \<Rightarrow>
          (let xs = meta c;
               idx = (case elt of None \<Rightarrow> int (length xs) | Some e \<Rightarrow> int (find_idx xs e))
           in
           bindE (retreat xs elt (hand_pos_hot c)) (\<lambda>ph.
           bindE (retreat xs elt (hand_pos_cold c)) (\<lambda>pc.
           bindE (retreat xs elt (hand_pos_test c)) (\<lambda>pt.
           (case elt of
              None \<Rightarrow> Inl NilDeref
            | Some e \<Rightarrow>
                (let ys = remove1 e xs; max_pos = int (length ys) - 1 in
                 Inr (c\<lparr>metaKeys := (metaKeys c)(k := None), meta := ys,
                        hand_pos_hot := ph, hand_pos_cold := pc, hand_pos_test := pt,
                        hand_idx_hot := shift_idx idx max_pos (hand_idx_hot c),
                        hand_idx_cold := shift_idx idx max_pos (hand_idx_cold c),
                        hand_idx_test := shift_idx idx max_pos (hand_idx_test c)\<rparr>))))))))"

subsection \<open>Moving a hand forward\<close>

text \<open>
  \<^verbatim>\<open>idx++; pos = pos.Next(); if pos == nil { pos = Front(); idx = 0 }\<close>, the step that
  ends each of the three hand procedures and \<^verbatim>\<open>meta_add\<close>.
\<close>

definition advance :: "eptr list \<Rightarrow> eptr option \<Rightarrow> int \<Rightarrow> error + (eptr option \<times> int)" where
  "advance xs h i =
     bindE (hand_Next xs h) (\<lambda>n. Inr (case n of None \<Rightarrow> (Front xs, 0) | Some e \<Rightarrow> (Some e, i + 1)))"

definition step_cold :: "'v Cache \<Rightarrow> error + 'v Cache" where
  "step_cold c =
     bindE (advance (meta c) (hand_pos_cold c) (hand_idx_cold c))
       (\<lambda>(p, i). Inr (c\<lparr>hand_pos_cold := p, hand_idx_cold := i\<rparr>))"

definition step_hot :: "'v Cache \<Rightarrow> error + 'v Cache" where
  "step_hot c =
     bindE (advance (meta c) (hand_pos_hot c) (hand_idx_hot c))
       (\<lambda>(p, i). Inr (c\<lparr>hand_pos_hot := p, hand_idx_hot := i\<rparr>))"

definition step_test :: "'v Cache \<Rightarrow> error + 'v Cache" where
  "step_test c =
     bindE (advance (meta c) (hand_pos_test c) (hand_idx_test c))
       (\<lambda>(p, i). Inr (c\<lparr>hand_pos_test := p, hand_idx_test := i\<rparr>))"

subsection \<open>The three hands and \<^verbatim>\<open>evict\<close>\<close>

text \<open>The two branches of \<^verbatim>\<open>hand_cold\<close> on a cold page \<open>m\<close>, up to the loop over \<^verbatim>\<open>hand_test\<close>.\<close>

definition cold_promote :: "'v Cache \<Rightarrow> mptr \<Rightarrow> 'v Cache" where
  "cold_promote c m =
     c\<lparr>entries := (entries c)(m := (entries c m)\<lparr>ptype := ptHot, ref := False\<rparr>),
       count_cold := count_cold c - 1, count_hot := count_hot c + 1\<rparr>"

definition cold_demote :: "'v Cache \<Rightarrow> mptr \<Rightarrow> 'v Cache" where
  "cold_demote c m =
     c\<lparr>entries := (entries c)(m := (entries c m)\<lparr>ptype := ptTest, val := None\<rparr>),
       count_cold := count_cold c - 1, count_test := count_test c + 1\<rparr>"

text \<open>\<^verbatim>\<open>hand_hot\<close> after its call of \<^verbatim>\<open>hand_test\<close>: the page \<open>m\<close> under the hand, then the step.\<close>

definition hot_examine :: "'v Cache \<Rightarrow> mptr \<Rightarrow> 'v Cache" where
  "hot_examine c m =
     (if ptype (entries c m) = ptHot then
        (if ref (entries c m) then
           c\<lparr>entries := (entries c)(m := (entries c m)\<lparr>ref := False\<rparr>)\<rparr>
         else
           c\<lparr>entries := (entries c)(m := (entries c m)\<lparr>ptype := ptCold\<rparr>),
             count_hot := count_hot c - 1, count_cold := count_cold c + 1\<rparr>)
      else c)"

definition hot_rest :: "'v Cache \<Rightarrow> error + 'v Cache" where
  "hot_rest c =
     (case hand_pos_hot c of
        None \<Rightarrow> Inl NilDeref
      | Some h \<Rightarrow> step_hot (hot_examine c (elt_value c h)))"

text \<open>
  \<^verbatim>\<open>hand_test\<close> after its call of \<^verbatim>\<open>hand_cold\<close>: a test page under the hand \<open>h\<close> is
  deleted and the hand put on its predecessor, then the step.
\<close>

definition test_examine :: "'v Cache \<Rightarrow> eptr \<Rightarrow> error + 'v Cache" where
  "test_examine c h =
     (let m = elt_value c h in
      if ptype (entries c m) = ptTest then
        (let prev = (case elt_Prev (meta c) h of None \<Rightarrow> Back (meta c) | Some p \<Rightarrow> Some p);
             pidx = (case elt_Prev (meta c) h of None \<Rightarrow> int (length (meta c))
                     | Some p \<Rightarrow> hand_idx_test c - 1)
         in
         bindE (meta_del c (key (entries c m))) (\<lambda>c1.
           Inr (c1\<lparr>hand_pos_test := prev, hand_idx_test := pidx,
                  count_test := count_test c1 - 1,
                  mem_cold := (if mem_cold c1 > 1 then mem_cold c1 - 1 else mem_cold c1)\<rparr>)))
      else Inr c)"

definition test_rest :: "'v Cache \<Rightarrow> error + 'v Cache" where
  "test_rest c =
     (case hand_pos_test c of
        None \<Rightarrow> Inl NilDeref
      | Some h \<Rightarrow> bindE (test_examine c h) step_test)"

text \<open>
  \<^verbatim>\<open>evict\<close>, \<^verbatim>\<open>hand_cold\<close>, \<^verbatim>\<open>hand_hot\<close> and \<^verbatim>\<open>hand_test\<close> call each other, and so do the
  two \<^verbatim>\<open>for\<close> loops inside \<^verbatim>\<open>hand_cold\<close>; nothing in the code bounds the recursion, so
  they are one partial function, indexed by the procedure that runs.
\<close>

datatype proc = Evict | HandCold | TestLoop | HotLoop | HandHot | HandTest

lemma bindR_mono [partial_function_mono]:
  assumes mf: "mono_option B" and mg: "\<And>y. mono_option (C y)"
  shows "mono_option (\<lambda>f. bindR (B f) (\<lambda>y. C y f))"
proof -
  have eq: "(\<lambda>f. bindR (B f) (\<lambda>y. C y f)) =
        (\<lambda>f. Option.bind (B f) (\<lambda>r. case r of Inl e \<Rightarrow> Some (Inl e) | Inr x \<Rightarrow> C x f))"
    by (auto simp: bindR_def fun_eq_iff split: option.splits sum.splits)
  show ?thesis
    unfolding eq
  proof (rule bind_mono [OF mf])
    fix r
    show "mono_option (\<lambda>f. case r of Inl e \<Rightarrow> Some (Inl e) | Inr x \<Rightarrow> C x f)"
      by (cases r) (simp_all add: mg option.const_mono)
  qed
qed

partial_function (option) run :: "proc \<Rightarrow> 'v Cache \<Rightarrow> (error + 'v Cache) option" where
  "run p c =
     (case p of
        Evict \<Rightarrow>
          (if mem_max c \<le> count_hot c + count_cold c
           then bindR (run HandCold c) (\<lambda>c1. run Evict c1) else Some (Inr c))
      | TestLoop \<Rightarrow>
          (if mem_max c < count_test c
           then bindR (run HandTest c) (\<lambda>c1. run TestLoop c1) else Some (Inr c))
      | HotLoop \<Rightarrow>
          (if mem_max c - mem_cold c < count_hot c
           then bindR (run HandHot c) (\<lambda>c1. run HotLoop c1) else Some (Inr c))
      | HandCold \<Rightarrow>
          (case hand_pos_cold c of
             None \<Rightarrow> Some (Inl NilDeref)
           | Some h \<Rightarrow>
               (let m = elt_value c h in
                bindR
                  (bindR
                     (if ptype (entries c m) = ptCold then
                        (if ref (entries c m) then Some (Inr (cold_promote c m))
                         else run TestLoop (cold_demote c m))
                      else Some (Inr c))
                     (\<lambda>c1. Some (step_cold c1)))
                  (\<lambda>c2. run HotLoop c2)))
      | HandHot \<Rightarrow>
          bindR (if hand_pos_hot c = hand_pos_test c then run HandTest c else Some (Inr c))
            (\<lambda>c1. Some (hot_rest c1))
      | HandTest \<Rightarrow>
          bindR (if hand_pos_test c = hand_pos_cold c then run HandCold c else Some (Inr c))
            (\<lambda>c1. Some (test_rest c1)))"

declare run.simps [code]

definition evict :: "'v Cache \<Rightarrow> (error + 'v Cache) option" where
  "evict c = run Evict c"

definition hand_cold :: "'v Cache \<Rightarrow> (error + 'v Cache) option" where
  "hand_cold c = run HandCold c"

definition hand_hot :: "'v Cache \<Rightarrow> (error + 'v Cache) option" where
  "hand_hot c = run HandHot c"

definition hand_test :: "'v Cache \<Rightarrow> (error + 'v Cache) option" where
  "hand_test c = run HandTest c"

subsection \<open>\<^verbatim>\<open>meta_add\<close> and \<^verbatim>\<open>Set\<close>\<close>

text \<open>\<^verbatim>\<open>meta_add\<close> after its call of \<^verbatim>\<open>evict\<close>: the entry \<open>m\<close> gets a new list element \<open>next_elt c\<close>.\<close>

definition meta_link :: "'v Cache \<Rightarrow> mptr \<Rightarrow> error + 'v Cache" where
  "meta_link c m =
     (let n = next_elt c; k = key (entries c m) in
      case hand_pos_hot c of
        None \<Rightarrow>
          Inr (c\<lparr>meta := n # meta c, elt_value := (elt_value c)(n := m), next_elt := Suc n,
                 metaKeys := (metaKeys c)(k := Some (Some n)),
                 hand_pos_hot := Some n, hand_pos_cold := Some n, hand_pos_test := Some n\<rparr>)
      | Some h \<Rightarrow>
          (let ys = InsertBefore (meta c) n h;
               r = (if h \<in> set (meta c) then Some n else None)
           in
           bindE (if hand_idx_cold c \<ge> hand_idx_hot c then hand_Prev ys (hand_pos_cold c)
                  else Inr (hand_pos_cold c)) (\<lambda>pc.
           bindE (if hand_idx_test c \<ge> hand_idx_hot c then hand_Prev ys (hand_pos_test c)
                  else Inr (hand_pos_test c)) (\<lambda>pt.
             Inr (c\<lparr>meta := ys, elt_value := (elt_value c)(n := m), next_elt := Suc n,
                    metaKeys := (metaKeys c)(k := Some r),
                    hand_pos_hot := elt_Prev ys h, hand_pos_cold := pc, hand_pos_test := pt\<rparr>)))))"

definition meta_fix :: "'v Cache \<Rightarrow> error + 'v Cache" where
  "meta_fix c =
     bindE (if hand_idx_cold c > hand_idx_hot c
            then advance (meta c) (hand_pos_cold c) (hand_idx_cold c)
            else Inr (hand_pos_cold c, hand_idx_cold c)) (\<lambda>(pc, ic).
     bindE (if hand_idx_test c \<ge> hand_idx_hot c
            then advance (meta c) (hand_pos_test c) (hand_idx_test c)
            else Inr (hand_pos_test c, hand_idx_test c)) (\<lambda>(pt, it).
     bindE (advance (meta c) (hand_pos_hot c) (hand_idx_hot c)) (\<lambda>(ph, ih).
       Inr (c\<lparr>hand_pos_hot := ph, hand_pos_cold := pc, hand_pos_test := pt,
              hand_idx_hot := ih, hand_idx_cold := ic, hand_idx_test := it\<rparr>))))"

definition meta_add :: "'v Cache \<Rightarrow> mptr \<Rightarrow> (error + 'v Cache) option" where
  "meta_add c m = bindR (evict c) (\<lambda>c1. Some (bindE (meta_link c1 m) meta_fix))"

definition Set :: "'v Cache \<Rightarrow> string \<Rightarrow> 'v option \<Rightarrow> (error + 'v Cache) option" where
  "Set c k x =
     (case lookup_elt c k of
        Some v \<Rightarrow>
          (let m = elt_value c v in
           if val (entries c m) = None then
             bindR (Some (meta_del
                      (c\<lparr>mem_cold := (if mem_cold c < mem_max c then mem_cold c + 1 else mem_cold c),
                         entries := (entries c)(m := (entries c m)\<lparr>ref := False, val := x, ptype := ptHot\<rparr>),
                         count_test := count_test c - 1\<rparr>)
                      (key (entries c m)))) (\<lambda>c1.
             bindR (meta_add c1 m) (\<lambda>c2.
               Some (Inr (c2\<lparr>count_hot := count_hot c2 + 1\<rparr>))))
           else
             Some (Inr (c\<lparr>entries := (entries c)(m := (entries c m)\<lparr>val := x, ref := True\<rparr>)\<rparr>)))
      | None \<Rightarrow>
          (let m = next_entry c in
           bindR (meta_add
                    (c\<lparr>entries := (entries c)(m := \<lparr>ptype = ptCold, key = k, val = x, ref = False\<rparr>),
                       next_entry := Suc m\<rparr>) m) (\<lambda>c1.
             Some (Inr (c1\<lparr>count_cold := count_cold c1 + 1\<rparr>)))))"

subsection \<open>Sequences of public calls\<close>

datatype 'v op = OpGet string | OpSet string "'v option"

fun run_ops :: "'v Cache \<Rightarrow> 'v op list \<Rightarrow> (error + 'v Cache) option" where
  "run_ops c [] = Some (Inr c)"
| "run_ops c (OpGet k # ops) = run_ops (fst (Get c k)) ops"
| "run_ops c (OpSet k x # ops) = bindR (Set c k x) (\<lambda>c1. run_ops c1 ops)"

section \<open>Concrete caches\<close>

definition cache_a :: "int Cache" where
  "cache_a =
     \<lparr>mem_max = 1, mem_cold = 1, meta = [0], metaKeys = (\<lambda>_. None)(''a'' := Some (Some 0)),
      hand_pos_hot = Some 0, hand_pos_cold = Some 0, hand_pos_test = Some 0,
      hand_idx_hot = 0, hand_idx_cold = 0, hand_idx_test = 0,
      count_hot = 0, count_cold = 1, count_test = 0,
      elt_value = (\<lambda>_. 0)(0 := 0),
      entries = (\<lambda>_. \<lparr>ptype = ptTest, key = [], val = None, ref = False\<rparr>)
                  (0 := \<lparr>ptype = ptCold, key = ''a'', val = Some 1, ref = False\<rparr>),
      next_elt = Suc 0, next_entry = Suc 0\<rparr>"

definition cache_nil :: "int Cache" where
  "cache_nil =
     \<lparr>mem_max = 1, mem_cold = 1, meta = [0], metaKeys = (\<lambda>_. None)(''a'' := Some (Some 0)),
      hand_pos_hot = Some 0, hand_pos_cold = Some 0, hand_pos_test = Some 0,
      hand_idx_hot = 0, hand_idx_cold = 0, hand_idx_test = 0,
      count_hot = 0, count_cold = 1, count_test = 0,
      elt_value = (\<lambda>_. 0)(0 := 0),
      entries = (\<lambda>_. \<lparr>ptype = ptTest, key = [], val = None, ref = False\<rparr>)
                  (0 := \<lparr>ptype = ptCold, key = ''a'', val = None, ref = False\<rparr>),
      next_elt = Suc 0, next_entry = Suc 0\<rparr>"

text \<open>A list of one hot page with all three hands on it, and more hot pages than the hot budget allows.\<close>

definition stuck :: "'v Cache \<Rightarrow> bool" where
  "stuck c \<longleftrightarrow>
     (case meta c of
        [e] \<Rightarrow> hand_pos_hot c = Some e \<and> hand_pos_cold c = Some e \<and> hand_pos_test c = Some e \<and>
               ptype (entries c (elt_value c e)) = ptHot \<and> mem_max c - mem_cold c < count_hot c
      | _ \<Rightarrow> False)"

definition cache_a_ref :: "int Cache" where
  "cache_a_ref = cache_a\<lparr>entries := (entries cache_a)(0 := (entries cache_a 0)\<lparr>ref := True\<rparr>)\<rparr>"

definition cache_a_hot :: "int Cache" where
  "cache_a_hot =
     \<lparr>mem_max = 1, mem_cold = 1, meta = [0], metaKeys = (\<lambda>_. None)(''a'' := Some (Some 0)),
      hand_pos_hot = Some 0, hand_pos_cold = Some 0, hand_pos_test = Some 0,
      hand_idx_hot = 0, hand_idx_cold = 0, hand_idx_test = 0,
      count_hot = 1, count_cold = 0, count_test = 0,
      elt_value = (\<lambda>_. 0)(0 := 0),
      entries = (\<lambda>_. \<lparr>ptype = ptTest, key = [], val = None, ref = False\<rparr>)
                  (0 := \<lparr>ptype = ptHot, key = ''a'', val = Some 1, ref = False\<rparr>,
                   Suc 0 := \<lparr>ptype = ptCold, key = ''b'', val = Some 2, ref = False\<rparr>),
      next_elt = Suc 0, next_entry = Suc (Suc 0)\<rparr>"

text \<open>The list after \<^verbatim>\<open>meta_add\<close> has linked the new element \<open>n\<close>.\<close>

definition linked :: "eptr list \<Rightarrow> eptr option \<Rightarrow> eptr \<Rightarrow> eptr list" where
  "linked xs hot n = (case hot of None \<Rightarrow> n # xs | Some h \<Rightarrow> InsertBefore xs n h)"

definition cold_target_ok :: "int \<Rightarrow> 'v Cache \<Rightarrow> bool" where
  "cold_target_ok sz c \<longleftrightarrow> mem_max c = sz \<and> 1 \<le> mem_cold c \<and> mem_cold c \<le> mem_max c"

text \<open>The cache after \<^verbatim>\<open>Set a; Set b; Get b; Set c; Get c; Set a\<close> on a new cache of size 2.\<close>

definition six_ops :: "int op list" where
  "six_ops = [OpSet ''a'' (Some 1), OpSet ''b'' (Some 1), OpGet ''b'',
              OpSet ''c'' (Some 1), OpGet ''c'', OpSet ''a'' (Some 1)]"

definition cache_six :: "int Cache" where
  "cache_six =
     \<lparr>mem_max = 2, mem_cold = 1, meta = [Suc (Suc 0), Suc (Suc (Suc 0)), Suc 0],
      metaKeys = (\<lambda>_. None)(''b'' := Some (Some (Suc 0)), ''c'' := Some (Some (Suc (Suc 0))),
                   ''a'' := Some (Some (Suc (Suc (Suc 0))))),
      hand_pos_hot = Some (Suc 0), hand_pos_cold = Some (Suc (Suc 0)), hand_pos_test = Some (Suc 0),
      hand_idx_hot = 2, hand_idx_cold = 0, hand_idx_test = 2,
      count_hot = 1, count_cold = 1, count_test = 1,
      elt_value = (\<lambda>_. 0)(0 := 0, Suc 0 := Suc 0, Suc (Suc 0) := Suc (Suc 0),
                     Suc (Suc (Suc 0)) := Suc (Suc (Suc 0))),
      entries = (\<lambda>_. \<lparr>ptype = ptTest, key = [], val = None, ref = False\<rparr>)
                  (0 := \<lparr>ptype = ptTest, key = ''a'', val = None, ref = False\<rparr>,
                   Suc (Suc (Suc 0)) := \<lparr>ptype = ptCold, key = ''a'', val = Some 1, ref = False\<rparr>,
                   Suc (Suc 0) := \<lparr>ptype = ptHot, key = ''c'', val = Some 1, ref = False\<rparr>,
                   Suc 0 := \<lparr>ptype = ptTest, key = ''b'', val = None, ref = False\<rparr>),
      next_elt = Suc (Suc (Suc (Suc 0))), next_entry = Suc (Suc (Suc (Suc 0)))\<rparr>"

text \<open>What \<open>run p\<close> guarantees about the counters when it returns \<open>c'\<close> from \<open>c\<close>.\<close>

definition counts_post :: "proc \<Rightarrow> 'v Cache \<Rightarrow> 'v Cache \<Rightarrow> bool" where
  "counts_post p c c' \<longleftrightarrow>
     mem_max c' = mem_max c \<and> count_test c' \<le> max (count_test c) (mem_max c) \<and>
     (p = TestLoop \<longrightarrow> count_test c' \<le> mem_max c') \<and>
     (p = Evict \<longrightarrow> count_hot c' + count_cold c' < mem_max c')"

text \<open>The two capacity bounds.\<close>

definition resident_ok :: "'v Cache \<Rightarrow> bool" where
  "resident_ok c \<longleftrightarrow> count_hot c + count_cold c \<le> mem_max c \<and> count_test c \<le> mem_max c"

text \<open>The list has no repeated element, the index \<open>metaKeys\<close> maps exactly the keys of the list
  elements to their elements, the addresses in use are allocated, and the counters add up
  to the length of the list.\<close>

definition index_ok :: "'v Cache \<Rightarrow> bool" where
  "index_ok c \<longleftrightarrow>
     distinct (meta c) \<and>
     (\<forall>e \<in> set (meta c). e < next_elt c \<and> elt_value c e < next_entry c \<and>
        metaKeys c (key (entries c (elt_value c e))) = Some (Some e)) \<and>
     (\<forall>k v. metaKeys c k = Some v \<longrightarrow>
        (\<exists>e. v = Some e \<and> e \<in> set (meta c) \<and> key (entries c (elt_value c e)) = k)) \<and>
     int (length (meta c)) = count_hot c + count_cold c + count_test c"

text \<open>The entry \<open>m\<close> with key \<open>k\<close> is allocated and not in the index.\<close>

definition pending :: "string \<Rightarrow> mptr \<Rightarrow> 'v Cache \<Rightarrow> bool" where
  "pending k m c \<longleftrightarrow> metaKeys c k = None \<and> key (entries c m) = k \<and> m < next_entry c"

text \<open>The hand \<open>h\<close> with index \<open>i\<close> points at a node of the list, and \<open>i\<close> is the position of that node.\<close>

definition hand_at :: "eptr list \<Rightarrow> eptr option \<Rightarrow> int \<Rightarrow> bool" where
  "hand_at xs h i \<longleftrightarrow> (case h of None \<Rightarrow> False | Some e \<Rightarrow> e \<in> set xs \<and> i = int (find_idx xs e))"

text \<open>The elements of the list are distinct and allocated, and the three hands are live with the
  right indices (what \<^verbatim>\<open>VerifyIdxs\<close> checks).\<close>

definition hands_live :: "'v Cache \<Rightarrow> bool" where
  "hands_live c \<longleftrightarrow>
     distinct (meta c) \<and> next_elt c \<notin> set (meta c) \<and>
     hand_at (meta c) (hand_pos_hot c) (hand_idx_hot c) \<and>
     hand_at (meta c) (hand_pos_cold c) (hand_idx_cold c) \<and>
     hand_at (meta c) (hand_pos_test c) (hand_idx_test c)"

text \<open>The cache after \<^verbatim>\<open>Set("a", 1)\<close> on a new cache of size 2; the same with the entry for a new
  key \<open>b\<close> allocated, as \<^verbatim>\<open>Set("b", 2)\<close> passes it to \<^verbatim>\<open>meta_add\<close>; and what \<^verbatim>\<open>meta_add\<close> returns.\<close>

definition cache_a2 :: "int Cache" where
  "cache_a2 = cache_a\<lparr>mem_max := 2, mem_cold := 2\<rparr>"

definition cache_a2b :: "int Cache" where
  "cache_a2b =
     cache_a2\<lparr>entries := (entries cache_a2)
                  (Suc 0 := \<lparr>ptype = ptCold, key = ''b'', val = Some 2, ref = False\<rparr>),
              next_entry := Suc (Suc 0)\<rparr>"

definition cache_ab :: "int Cache" where
  "cache_ab =
     cache_a2b\<lparr>meta := [Suc 0, 0], elt_value := (elt_value cache_a2b)(Suc 0 := Suc 0),
               next_elt := Suc (Suc 0),
               metaKeys := (metaKeys cache_a2b)(''b'' := Some (Some (Suc 0))),
               hand_pos_cold := Some (Suc 0), hand_idx_hot := 1, hand_idx_test := 1\<rparr>"

section \<open>Basic facts\<close>

lemma bindE_simps [simp]:
  "bindE (Inl e) f = Inl e" "bindE (Inr x) f = f x"
  by (simp_all add: bindE_def)

lemma bindR_simps [simp]:
  "bindR None f = None" "bindR (Some (Inl e)) f = Some (Inl e)" "bindR (Some (Inr x)) f = f x"
  by (simp_all add: bindR_def)

lemma run_Evict:
  "run Evict c = (if mem_max c \<le> count_hot c + count_cold c
           then bindR (run HandCold c) (run Evict) else Some (Inr c))"
  by (subst run.simps) simp

lemma run_TestLoop:
  "run TestLoop c = (if mem_max c < count_test c
           then bindR (run HandTest c) (run TestLoop) else Some (Inr c))"
  by (subst run.simps) simp

lemma run_HotLoop:
  "run HotLoop c = (if mem_max c - mem_cold c < count_hot c
           then bindR (run HandHot c) (run HotLoop) else Some (Inr c))"
  by (subst run.simps) simp

lemma run_HandCold:
  "run HandCold c =
     (case hand_pos_cold c of
             None \<Rightarrow> Some (Inl NilDeref)
           | Some h \<Rightarrow>
                bindR
                  (bindR
                     (if ptype (entries c (elt_value c h)) = ptCold then
                        (if ref (entries c (elt_value c h)) then Some (Inr (cold_promote c (elt_value c h)))
                         else run TestLoop (cold_demote c (elt_value c h)))
                      else Some (Inr c))
                     (\<lambda>c1. Some (step_cold c1)))
                  (run HotLoop))"
  by (subst run.simps) (simp add: Let_def cong: option.case_cong)

lemma run_HandHot:
  "run HandHot c = bindR (if hand_pos_hot c = hand_pos_test c then run HandTest c else Some (Inr c))
            (\<lambda>c1. Some (hot_rest c1))"
  by (subst run.simps) simp

lemma run_HandTest:
  "run HandTest c = bindR (if hand_pos_test c = hand_pos_cold c then run HandCold c else Some (Inr c))
            (\<lambda>c1. Some (test_rest c1))"
  by (subst run.simps) simp

lemmas run_unfold = run_Evict run_TestLoop run_HotLoop run_HandCold run_HandHot run_HandTest

lemmas list_ops = Front_def Back_def elt_Next_def elt_Prev_def hand_Next_def hand_Prev_def
  InsertBefore_def advance_def retreat_def shift_idx_def

lemmas cache_ops = New_def lookup_elt_def Get_def meta_del_def step_cold_def step_hot_def step_test_def
  cold_promote_def cold_demote_def hot_examine_def hot_rest_def test_examine_def test_rest_def evict_def meta_link_def meta_fix_def
  meta_add_def Set_def Let_def


lemma Set_New_a: "Set (New 1) ''a'' (Some 1) = Some (Inr cache_a)"
  by (simp add: cache_a_def run_unfold list_ops cache_ops)

text \<open>
  C9 (amended). \<^verbatim>\<open>New\<close> checks nothing: for every size, also a size below 1, it returns a
  cache with \<open>mem_max = mem_cold = size\<close>, an empty list and index, nil hands and zero
  counts. On a cache of size below 1, \<^verbatim>\<open>Get\<close> misses and \<^verbatim>\<open>Set\<close> panics with a nil
  dereference in \<^verbatim>\<open>hand_cold\<close>.
\<close>

theorem New_unchecked:
  "mem_max (New sz :: 'v Cache) = sz \<and> mem_cold (New sz :: 'v Cache) = sz \<and> meta (New sz :: 'v Cache) = [] \<and>
   metaKeys (New sz :: 'v Cache) = (\<lambda>_. None) \<and>
   hand_pos_hot (New sz :: 'v Cache) = None \<and> hand_pos_cold (New sz :: 'v Cache) = None \<and> hand_pos_test (New sz :: 'v Cache) = None \<and>
   count_hot (New sz :: 'v Cache) = 0 \<and> count_cold (New sz :: 'v Cache) = 0 \<and> count_test (New sz :: 'v Cache) = 0 \<and>
   (sz < 1 \<longrightarrow> Get (New sz :: 'v Cache) k = (New sz, None) \<and> Set (New sz :: 'v Cache) k x = Some (Inl NilDeref))"
  by (simp add: run_unfold cache_ops)

theorem New_unchecked_witness:
  "mem_max (New 0 :: int Cache) = 0 \<and> (0::int) < 1 \<and>
   Set (New 0 :: int Cache) ''a'' (Some 1) = Some (Inl NilDeref)"
  using New_unchecked [of 0 "''a''" "Some (1::int)"] by simp

text \<open>
  C9 (as stated, refuted). The claim says that a size below 1 is rejected at construction;
  \<^verbatim>\<open>New(0)\<close> returns a cache, on which \<^verbatim>\<open>Get\<close> works.
\<close>

theorem New_zero_accepted:
  "(New 0 :: int Cache) =
     \<lparr>mem_max = 0, mem_cold = 0, meta = [], metaKeys = (\<lambda>_. None),
      hand_pos_hot = None, hand_pos_cold = None, hand_pos_test = None,
      hand_idx_hot = 0, hand_idx_cold = 0, hand_idx_test = 0,
      count_hot = 0, count_cold = 0, count_test = 0,
      elt_value = (\<lambda>_. 0),
      entries = (\<lambda>_. \<lparr>ptype = ptTest, key = [], val = None, ref = False\<rparr>),
      next_elt = 0, next_entry = 0\<rparr> \<and>
   Get (New 0 :: int Cache) ''a'' = (New 0, None)"
  by (simp add: New_def Get_def lookup_elt_def)

text \<open>
  C3 (amended). \<^verbatim>\<open>Get\<close> returns the miss value (nil) exactly when the key is not in the
  index or the value of its entry is nil, whatever the page type; otherwise it sets the
  reference bit of that entry and returns the stored value.
\<close>

theorem Get_result:
  "(snd (Get c k) = None \<longleftrightarrow>
      (case lookup_elt c k of None \<Rightarrow> True | Some v \<Rightarrow> val (entries c (elt_value c v)) = None)) \<and>
   (\<forall>v. lookup_elt c k = Some v \<and> val (entries c (elt_value c v)) \<noteq> None \<longrightarrow>
      snd (Get c k) = val (entries c (elt_value c v)) \<and>
      entries (fst (Get c k)) =
        (entries c)(elt_value c v := (entries c (elt_value c v))\<lparr>ref := True\<rparr>))"
  by (auto simp: Get_def Let_def split: option.splits)

theorem Get_result_witness:
  "lookup_elt cache_a ''a'' = Some 0 \<and> val (entries cache_a (elt_value cache_a 0)) \<noteq> None \<and>
   snd (Get cache_a ''a'') = Some 1 \<and>
   ref (entries (fst (Get cache_a ''a'')) 0) = True \<and> snd (Get cache_a ''b'') = None"
  using Get_result [of cache_a "''a''"] Get_result [of cache_a "''b''"]
  by (simp add: cache_a_def lookup_elt_def)

text \<open>
  C3 (as stated, refuted). After \<^verbatim>\<open>Set("a", nil)\<close> on a new cache of size 1 the key is in
  the index and its page is cold, not a test page, and still \<^verbatim>\<open>Get("a")\<close> returns the miss
  value.
\<close>

theorem Get_miss_on_cold_page:
  "Set (New 1) ''a'' None = Some (Inr cache_nil) \<and>
   lookup_elt cache_nil ''a'' = Some 0 \<and>
   ptype (entries cache_nil (elt_value cache_nil 0)) = ptCold \<and>
   snd (Get cache_nil ''a'') = None"
  by (simp add: cache_nil_def run_unfold list_ops cache_ops)

text \<open>
  C4. \<^verbatim>\<open>Get\<close> leaves the list, the index, the three hands and their indices, the three
  counters, \<open>mem_max\<close> and \<open>mem_cold\<close> unchanged; the entries are unchanged too, except
  that the reference bit of the looked-up entry is set when that entry holds a value.
\<close>

theorem Get_frame:
  "Get c k = (c', r) \<Longrightarrow>
     meta c' = meta c \<and> metaKeys c' = metaKeys c \<and> elt_value c' = elt_value c \<and>
     hand_pos_hot c' = hand_pos_hot c \<and> hand_pos_cold c' = hand_pos_cold c \<and>
     hand_pos_test c' = hand_pos_test c \<and>
     hand_idx_hot c' = hand_idx_hot c \<and> hand_idx_cold c' = hand_idx_cold c \<and>
     hand_idx_test c' = hand_idx_test c \<and>
     count_hot c' = count_hot c \<and> count_cold c' = count_cold c \<and> count_test c' = count_test c \<and>
     mem_max c' = mem_max c \<and> mem_cold c' = mem_cold c \<and>
     next_elt c' = next_elt c \<and> next_entry c' = next_entry c \<and>
     (entries c' = entries c \<or>
      (\<exists>v. lookup_elt c k = Some v \<and> val (entries c (elt_value c v)) \<noteq> None \<and>
           entries c' = (entries c)(elt_value c v := (entries c (elt_value c v))\<lparr>ref := True\<rparr>)))"
  by (auto simp: Get_def Let_def split: option.splits if_splits)

theorem Get_frame_witness:
  "Get cache_a ''a'' =
     (cache_a\<lparr>entries := (entries cache_a)(0 := (entries cache_a 0)\<lparr>ref := True\<rparr>)\<rparr>, Some 1) \<and>
   meta (fst (Get cache_a ''a'')) = meta cache_a \<and>
   hand_pos_hot (fst (Get cache_a ''a'')) = hand_pos_hot cache_a \<and>
   count_cold (fst (Get cache_a ''a'')) = count_cold cache_a"
proof -
  have g: "Get cache_a ''a'' =
     (cache_a\<lparr>entries := (entries cache_a)(0 := (entries cache_a 0)\<lparr>ref := True\<rparr>)\<rparr>, Some 1)"
    by (simp add: cache_a_def Get_def lookup_elt_def)
  from Get_frame [OF g] g show ?thesis by simp
qed

section \<open>Termination\<close>

lemma stuck_iff:
  "stuck c \<longleftrightarrow>
     (\<exists>e. meta c = [e] \<and> hand_pos_hot c = Some e \<and> hand_pos_cold c = Some e \<and>
          hand_pos_test c = Some e \<and> ptype (entries c (elt_value c e)) = ptHot \<and>
          mem_max c - mem_cold c < count_hot c)"
  by (cases "meta c"; cases "tl (meta c)") (auto simp: stuck_def)

lemma stuck_step_cold:
  "stuck c \<Longrightarrow> \<exists>c'. step_cold c = Inr c' \<and> stuck c'"
  by (auto simp: stuck_iff step_cold_def list_ops)

lemma bindR_Some_D: "bindR m f = Some r \<Longrightarrow> \<exists>r'. m = Some r'"
  by (cases m) auto

lemma stuck_no_return:
  assumes ret: "run p0 c0 = Some r0"
  shows "stuck c0 \<longrightarrow> p0 \<in> {HandCold, HotLoop, HandHot, HandTest} \<longrightarrow> False"
proof (rule run.raw_induct [OF _ ret], goal_cases)
  case (1 run' p c r)
  show ?case
  proof (intro impI)
    assume st: "stuck c" and p: "p \<in> {HandCold, HotLoop, HandHot, HandTest}"
    show False
    proof (cases p)
      case Evict with p show ?thesis by simp
    next
      case TestLoop with p show ?thesis by simp
    next
      case HotLoop
      with 1(2) st have "bindR (run' HandHot c) (run' HotLoop) = Some r"
        by (auto simp: stuck_iff)
      then obtain r' where "run' HandHot c = Some r'"
        by (blast dest: bindR_Some_D)
      from 1(1) [OF this] st show ?thesis by simp
    next
      case HandHot
      with 1(2) st have "bindR (run' HandTest c) (\<lambda>c1. Some (hot_rest c1)) = Some r"
        by (auto simp: stuck_iff)
      then obtain r' where "run' HandTest c = Some r'"
        by (blast dest: bindR_Some_D)
      from 1(1) [OF this] st show ?thesis by simp
    next
      case HandTest
      with 1(2) st have "bindR (run' HandCold c) (\<lambda>c1. Some (test_rest c1)) = Some r"
        by (auto simp: stuck_iff)
      then obtain r' where "run' HandCold c = Some r'"
        by (blast dest: bindR_Some_D)
      from 1(1) [OF this] st show ?thesis by simp
    next
      case HandCold
      from stuck_step_cold [OF st] obtain c' where c': "step_cold c = Inr c'" "stuck c'" by blast
      with HandCold 1(2) st have "run' HotLoop c' = Some r"
        by (auto simp: stuck_iff Let_def)
      from 1(1) [OF this] c'(2) show ?thesis by simp
    qed
  qed
qed

lemma stuck_diverges: "stuck c \<Longrightarrow> run HandCold c = None"
  using stuck_no_return [of HandCold c] by (cases "run HandCold c") auto

lemma stuck_cache_a_hot: "stuck cache_a_hot"
  by (simp add: stuck_iff cache_a_hot_def)

lemma cold_step: "bindR (Some (Inr (cold_promote (cache_a_ref\<lparr>entries := (entries cache_a_ref)(Suc 0 := \<lparr>ptype = ptCold, key = ''b'', val = Some 2, ref = False\<rparr>), next_entry := Suc (Suc 0)\<rparr>) 0))) (\<lambda>c1. Some (step_cold c1)) = Some (Inr cache_a_hot)"
  by (simp add: cache_a_ref_def cache_a_def cache_a_hot_def list_ops cache_ops fun_upd_twist)

text \<open>
  C2 (the code does not do this). On a cache of size 1, \<^verbatim>\<open>Set("a", 1); Get("a"); Set("b", 2)\<close>
  does not return: \<^verbatim>\<open>evict\<close> calls \<^verbatim>\<open>hand_cold\<close>, which makes the referenced page hot; the
  loop over \<^verbatim>\<open>hand_hot\<close> then calls \<^verbatim>\<open>hand_hot\<close>, \<^verbatim>\<open>hand_test\<close> and \<^verbatim>\<open>hand_cold\<close> in
  turn, and \<^verbatim>\<open>hand_cold\<close> reaches the same loop in the same state.
\<close>

theorem Set_diverges:
  "run_ops (New 1) [OpSet ''a'' (Some 1), OpGet ''a'', OpSet ''b'' (Some (2::int))] = None"
proof -
  have g: "fst (Get cache_a ''a'') = cache_a_ref"
    by (simp add: cache_a_def cache_a_ref_def Get_def lookup_elt_def)
  let ?c = "cache_a_ref\<lparr>entries := (entries cache_a_ref)(Suc 0 := \<lparr>ptype = ptCold, key = ''b'', val = Some 2, ref = False\<rparr>), next_entry := Suc (Suc 0)\<rparr>"
  have hl: "run HotLoop cache_a_hot = None"
    using stuck_diverges [OF stuck_cache_a_hot] stuck_cache_a_hot
    apply (subst run_HotLoop) 
    apply (subst run_HandHot)
    apply (subst run_HandTest)
    apply (simp add: cache_a_hot_def)
    done
  have hc: "run HandCold ?c = None"
    apply (subst run_HandCold)
    using cold_step hl
    apply (simp add: cache_a_ref_def cache_a_def)
    done
  have ev: "run Evict ?c = None"
    apply (subst run_Evict)
    apply (simp add: hc)
    apply (simp add: cache_a_ref_def cache_a_def)
    done
  have "Set cache_a_ref ''b'' (Some 2) = None"
    using ev
    by (simp add: Set_def meta_add_def evict_def lookup_elt_def Let_def cache_a_ref_def cache_a_def)
  then show ?thesis
    by (simp add: Set_New_a g)
qed


section \<open>Invariants of the hands\<close>

lemma bindR_eq_Inr:
  "bindR m f = Some (Inr y) \<longleftrightarrow> (\<exists>x. m = Some (Inr x) \<and> f x = Some (Inr y))"
  by (cases m) (auto simp: bindR_def split: sum.splits)

lemma bindE_eq_Inr:
  "bindE m f = Inr y \<longleftrightarrow> (\<exists>x. m = Inr x \<and> f x = Inr y)"
  by (cases m) auto

text \<open>A property that every elementary step of the hands preserves holds when \<open>run\<close> returns.\<close>

lemma run_preserves:
  assumes ret: "run p0 c0 = Some (Inr c0')"
    and pre: "I c0"
    and promote: "\<And>c h. I c \<Longrightarrow> hand_pos_cold c = Some h \<Longrightarrow>
        ptype (entries c (elt_value c h)) = ptCold \<Longrightarrow> ref (entries c (elt_value c h)) \<Longrightarrow>
        I (cold_promote c (elt_value c h))"
    and demote: "\<And>c h. I c \<Longrightarrow> hand_pos_cold c = Some h \<Longrightarrow>
        ptype (entries c (elt_value c h)) = ptCold \<Longrightarrow> \<not> ref (entries c (elt_value c h)) \<Longrightarrow>
        I (cold_demote c (elt_value c h))"
    and cold: "\<And>c c'. I c \<Longrightarrow> step_cold c = Inr c' \<Longrightarrow> I c'"
    and hot: "\<And>c c'. I c \<Longrightarrow> hot_rest c = Inr c' \<Longrightarrow> I c'"
    and test: "\<And>c c'. I c \<Longrightarrow> test_rest c = Inr c' \<Longrightarrow> I c'"
  shows "I c0'"
proof -
  have "\<forall>c'. (Inr c0' :: error + 'a Cache) = Inr c' \<longrightarrow> I c0 \<longrightarrow> I c'"
  proof (rule run.raw_induct [OF _ ret, where P = "\<lambda>p c r. \<forall>c'. r = Inr c' \<longrightarrow> I c \<longrightarrow> I c'"], intro allI impI, goal_cases)
    case (1 run' p c r c')
    note IH = 1(1) [rule_format, OF _ refl] and body = 1(2) [unfolded 1(3)] and I = 1(4)
    show ?case
    proof (cases p)
      case Evict
      show ?thesis
      proof (cases "mem_max c \<le> count_hot c + count_cold c")
        case True
        with body Evict obtain c1 where "run' HandCold c = Some (Inr c1)" "run' Evict c1 = Some (Inr c')"
          by (auto simp: bindR_eq_Inr)
        with IH I show ?thesis by blast
      next
        case False with body Evict I show ?thesis by simp
      qed
    next
      case TestLoop
      show ?thesis
      proof (cases "mem_max c < count_test c")
        case True
        with body TestLoop obtain c1 where "run' HandTest c = Some (Inr c1)" "run' TestLoop c1 = Some (Inr c')"
          by (auto simp: bindR_eq_Inr)
        with IH I show ?thesis by blast
      next
        case False with body TestLoop I show ?thesis by simp
      qed
    next
      case HotLoop
      show ?thesis
      proof (cases "mem_max c - mem_cold c < count_hot c")
        case True
        with body HotLoop obtain c1 where "run' HandHot c = Some (Inr c1)" "run' HotLoop c1 = Some (Inr c')"
          by (auto simp: bindR_eq_Inr)
        with IH I show ?thesis by blast
      next
        case False with body HotLoop I show ?thesis by simp
      qed
    next
      case HandHot
      from body HandHot obtain c1 where
        c1: "(if hand_pos_hot c = hand_pos_test c then run' HandTest c else Some (Inr c)) = Some (Inr c1)"
        and c': "hot_rest c1 = Inr c'"
        by (auto simp: bindR_eq_Inr)
      have "I c1" using c1 IH I by (cases "hand_pos_hot c = hand_pos_test c") auto
      with c' hot show ?thesis by blast
    next
      case HandTest
      from body HandTest obtain c1 where
        c1: "(if hand_pos_test c = hand_pos_cold c then run' HandCold c else Some (Inr c)) = Some (Inr c1)"
        and c': "test_rest c1 = Inr c'"
        by (auto simp: bindR_eq_Inr)
      have "I c1" using c1 IH I by (cases "hand_pos_test c = hand_pos_cold c") auto
      with c' test show ?thesis by blast
    next
      case HandCold
      from body HandCold obtain h c1 c2 where h: "hand_pos_cold c = Some h"
        and c1: "(if ptype (entries c (elt_value c h)) = ptCold then
                        (if ref (entries c (elt_value c h)) then Some (Inr (cold_promote c (elt_value c h)))
                         else run' TestLoop (cold_demote c (elt_value c h)))
                      else Some (Inr c)) = Some (Inr c1)"
        and c2: "step_cold c1 = Inr c2" and c': "run' HotLoop c2 = Some (Inr c')"
        by (auto simp: bindR_eq_Inr Let_def split: option.splits)
      have "I c1"
      proof (cases "ptype (entries c (elt_value c h)) = ptCold")
        case cold: True
        show ?thesis
        proof (cases "ref (entries c (elt_value c h))")
          case True
          with cold c1 promote [OF I h] show ?thesis by simp
        next
          case False
          with cold c1 demote [OF I h] IH show ?thesis by simp
        qed
      next
        case False with c1 I show ?thesis by simp
      qed
      then have "I c2" using c2 cold by blast
      with c' IH show ?thesis by blast
    qed
  qed
  then show ?thesis using pre by simp
qed


subsection \<open>The shape of the state after an elementary step\<close>

lemma step_cold_E:
  assumes "step_cold c = Inr c'"
  obtains p i where "c' = c\<lparr>hand_pos_cold := p, hand_idx_cold := i\<rparr>"
  using assms by (auto simp: step_cold_def bindE_eq_Inr)

lemma step_hot_E:
  assumes "step_hot c = Inr c'"
  obtains p i where "c' = c\<lparr>hand_pos_hot := p, hand_idx_hot := i\<rparr>"
  using assms by (auto simp: step_hot_def bindE_eq_Inr)

lemma step_test_E:
  assumes "step_test c = Inr c'"
  obtains p i where "c' = c\<lparr>hand_pos_test := p, hand_idx_test := i\<rparr>"
  using assms by (auto simp: step_test_def bindE_eq_Inr)

lemma hot_rest_E:
  assumes "hot_rest c = Inr c'"
  obtains h p i where "hand_pos_hot c = Some h"
    and "c' = (hot_examine c (elt_value c h))\<lparr>hand_pos_hot := p, hand_idx_hot := i\<rparr>"
  using assms by (auto simp: hot_rest_def split: option.splits elim!: step_hot_E)

lemma meta_del_E:
  assumes "meta_del c k = Inr c'"
  obtains e ph pc pt ih ic it where "metaKeys c k = Some (Some e)"
    and "c' = c\<lparr>metaKeys := (metaKeys c)(k := None), meta := remove1 e (meta c),
                 hand_pos_hot := ph, hand_pos_cold := pc, hand_pos_test := pt,
                 hand_idx_hot := ih, hand_idx_cold := ic, hand_idx_test := it\<rparr>"
  using assms by (auto simp: meta_del_def bindE_eq_Inr Let_def split: option.splits)

lemma test_examine_E:
  assumes "test_examine c h = Inr c'"
  obtains (skip) "ptype (entries c (elt_value c h)) \<noteq> ptTest" and "c' = c"
  | (delete) e ph pc pt ih ic it where "ptype (entries c (elt_value c h)) = ptTest"
      and "metaKeys c (key (entries c (elt_value c h))) = Some (Some e)"
      and "c' = c\<lparr>metaKeys := (metaKeys c)(key (entries c (elt_value c h)) := None),
                   meta := remove1 e (meta c),
                   hand_pos_hot := ph, hand_pos_cold := pc, hand_pos_test := pt,
                   hand_idx_hot := ih, hand_idx_cold := ic, hand_idx_test := it,
                   count_test := count_test c - 1,
                   mem_cold := (if mem_cold c > 1 then mem_cold c - 1 else mem_cold c)\<rparr>"
proof (cases "ptype (entries c (elt_value c h)) = ptTest")
  case False
  with assms have "c' = c" by (simp add: test_examine_def)
  with False show ?thesis by (rule skip)
next
  case True
  let ?prev = "case elt_Prev (meta c) h of None \<Rightarrow> Back (meta c) | Some p \<Rightarrow> Some p"
  let ?pidx = "case elt_Prev (meta c) h of None \<Rightarrow> int (length (meta c))
                     | Some p \<Rightarrow> hand_idx_test c - 1"
  let ?f = "\<lambda>c1. Inr (c1\<lparr>hand_pos_test := ?prev, hand_idx_test := ?pidx,
                  count_test := count_test c1 - 1,
                  mem_cold := (if mem_cold c1 > 1 then mem_cold c1 - 1 else mem_cold c1)\<rparr>) :: error + 'a Cache"
  from assms True have "bindE (meta_del c (key (entries c (elt_value c h)))) ?f = Inr c'"
    by (simp add: test_examine_def Let_def)
  then obtain c1 where d: "meta_del c (key (entries c (elt_value c h))) = Inr c1"
    and c'0: "?f c1 = Inr c'"
    unfolding bindE_eq_Inr by blast
  from c'0 have c': "c' = c1\<lparr>hand_pos_test := ?prev, hand_idx_test := ?pidx,
                  count_test := count_test c1 - 1,
                  mem_cold := (if mem_cold c1 > 1 then mem_cold c1 - 1 else mem_cold c1)\<rparr>"
    by simp
  from d show ?thesis
  proof (rule meta_del_E)
    fix e ph pc pt ih ic it
    assume "metaKeys c (key (entries c (elt_value c h))) = Some (Some e)"
      and "c1 = c\<lparr>metaKeys := (metaKeys c)(key (entries c (elt_value c h)) := None), meta := remove1 e (meta c),
                 hand_pos_hot := ph, hand_pos_cold := pc, hand_pos_test := pt,
                 hand_idx_hot := ih, hand_idx_cold := ic, hand_idx_test := it\<rparr>"
    with c' True show ?thesis
      by (intro delete [where e = e and ph = ph and pc = pc and ih = ih and ic = ic
            and pt = "?prev" and it = "?pidx"]) simp_all
  qed
qed

lemma test_rest_E:
  assumes "test_rest c = Inr c'"
  obtains h c1 p i where "hand_pos_test c = Some h" and "test_examine c h = Inr c1"
    and "c' = c1\<lparr>hand_pos_test := p, hand_idx_test := i\<rparr>"
  using assms by (auto simp: test_rest_def bindE_eq_Inr split: option.splits elim!: step_test_E)

lemma meta_fix_E:
  assumes "meta_fix c = Inr c'"
  obtains ph pc pt ih ic it where
    "c' = c\<lparr>hand_pos_hot := ph, hand_pos_cold := pc, hand_pos_test := pt,
            hand_idx_hot := ih, hand_idx_cold := ic, hand_idx_test := it\<rparr>"
  using assms by (auto simp: meta_fix_def bindE_eq_Inr)

lemma advance_None [simp]: "advance xs None i = Inl NilDeref"
  by (simp add: advance_def hand_Next_def)

lemma meta_fix_hot_None: "hand_pos_hot c = None \<Longrightarrow> meta_fix c = Inr c' \<Longrightarrow> False"
  by (auto simp: meta_fix_def bindE_eq_Inr)

lemma elt_Prev_notin [simp]: "h \<notin> set xs \<Longrightarrow> elt_Prev xs h = None"
  by (simp add: elt_Prev_def)

lemma meta_link_fix_E:
  assumes "bindE (meta_link c m) meta_fix = Inr c'"
  obtains ph pc pt ih ic it where
    "case hand_pos_hot c of None \<Rightarrow> True | Some h \<Rightarrow> h \<in> set (meta c)"
    and "c' = c\<lparr>meta := linked (meta c) (hand_pos_hot c) (next_elt c),
                 elt_value := (elt_value c)(next_elt c := m), next_elt := Suc (next_elt c),
                 metaKeys := (metaKeys c)(key (entries c m) := Some (Some (next_elt c))),
                 hand_pos_hot := ph, hand_pos_cold := pc, hand_pos_test := pt,
                 hand_idx_hot := ih, hand_idx_cold := ic, hand_idx_test := it\<rparr>"
proof -
  from assms obtain c1 where l: "meta_link c m = Inr c1" and f: "meta_fix c1 = Inr c'"
    unfolding bindE_eq_Inr by blast
  show ?thesis
  proof (cases "hand_pos_hot c")
    case None
    with l have c1: "c1 = c\<lparr>meta := next_elt c # meta c, elt_value := (elt_value c)(next_elt c := m),
                 next_elt := Suc (next_elt c),
                 metaKeys := (metaKeys c)(key (entries c m) := Some (Some (next_elt c))),
                 hand_pos_hot := Some (next_elt c), hand_pos_cold := Some (next_elt c),
                 hand_pos_test := Some (next_elt c)\<rparr>"
      by (simp add: meta_link_def Let_def)
    from f show ?thesis
    proof (rule meta_fix_E)
      fix ph pc pt ih ic it
      assume "c' = c1\<lparr>hand_pos_hot := ph, hand_pos_cold := pc, hand_pos_test := pt,
            hand_idx_hot := ih, hand_idx_cold := ic, hand_idx_test := it\<rparr>"
      with c1 None show ?thesis
        by (intro that [where ph = ph and pc = pc and pt = pt and ih = ih and ic = ic and it = it])
          (simp_all add: linked_def)
    qed
  next
    case (Some h)
    let ?ys = "InsertBefore (meta c) (next_elt c) h"
    from l Some obtain pc pt where
      c1: "c1 = c\<lparr>meta := ?ys, elt_value := (elt_value c)(next_elt c := m),
                 next_elt := Suc (next_elt c),
                 metaKeys := (metaKeys c)(key (entries c m) :=
                    Some (if h \<in> set (meta c) then Some (next_elt c) else None)),
                 hand_pos_hot := elt_Prev ?ys h, hand_pos_cold := pc, hand_pos_test := pt\<rparr>"
      by (auto simp: meta_link_def Let_def bindE_eq_Inr)
    have h: "h \<in> set (meta c)"
    proof (rule ccontr)
      assume "h \<notin> set (meta c)"
      then have "hand_pos_hot c1 = None" using c1 by (simp add: InsertBefore_def)
      with f show False by (blast dest: meta_fix_hot_None)
    qed
    from f show ?thesis
    proof (rule meta_fix_E)
      fix ph pc' pt' ih ic it
      assume "c' = c1\<lparr>hand_pos_hot := ph, hand_pos_cold := pc', hand_pos_test := pt',
            hand_idx_hot := ih, hand_idx_cold := ic, hand_idx_test := it\<rparr>"
      with c1 Some h show ?thesis
        by (intro that [where ph = ph and pc = pc' and pt = pt' and ih = ih and ic = ic and it = it])
          (simp_all add: linked_def)
    qed
  qed
qed

text \<open>The three paths of \<^verbatim>\<open>Set\<close>.\<close>

lemma Set_cases:
  assumes "Set c k x = Some (Inr c')"
  obtains (fresh) c1 c2 where "lookup_elt c k = None"
      and "evict (c\<lparr>entries := (entries c)(next_entry c := \<lparr>ptype = ptCold, key = k, val = x, ref = False\<rparr>),
                     next_entry := Suc (next_entry c)\<rparr>) = Some (Inr c1)"
      and "bindE (meta_link c1 (next_entry c)) meta_fix = Inr c2"
      and "c' = c2\<lparr>count_cold := count_cold c2 + 1\<rparr>"
  | (promote) v c1 c2 c3 where "lookup_elt c k = Some v" and "val (entries c (elt_value c v)) = None"
      and "meta_del (c\<lparr>mem_cold := (if mem_cold c < mem_max c then mem_cold c + 1 else mem_cold c),
                        entries := (entries c)(elt_value c v :=
                           (entries c (elt_value c v))\<lparr>ref := False, val := x, ptype := ptHot\<rparr>),
                        count_test := count_test c - 1\<rparr>) (key (entries c (elt_value c v))) = Inr c1"
      and "evict c1 = Some (Inr c2)"
      and "bindE (meta_link c2 (elt_value c v)) meta_fix = Inr c3"
      and "c' = c3\<lparr>count_hot := count_hot c3 + 1\<rparr>"
  | (overwrite) v where "lookup_elt c k = Some v" and "val (entries c (elt_value c v)) \<noteq> None"
      and "c' = c\<lparr>entries := (entries c)(elt_value c v := (entries c (elt_value c v))\<lparr>val := x, ref := True\<rparr>)\<rparr>"
proof (cases "lookup_elt c k")
  case None
  with assms show ?thesis
    by (auto simp: Set_def meta_add_def Let_def bindR_eq_Inr intro: fresh)
next
  case (Some v)
  show ?thesis
  proof (cases "val (entries c (elt_value c v)) = None")
    case True
    with assms Some show ?thesis
      by (auto simp: Set_def meta_add_def Let_def bindR_eq_Inr intro: promote)
  next
    case False
    with assms Some show ?thesis
      by (auto simp: Set_def Let_def intro: overwrite)
  qed
qed

subsection \<open>The bounds of \<open>mem_cold\<close>\<close>

lemma run_cold_target_ok:
  assumes "run p c = Some (Inr c')" and "cold_target_ok sz c"
  shows "cold_target_ok sz c'"
proof (rule run_preserves [OF assms(1), where I = "cold_target_ok sz", OF assms(2)])
  fix c c' :: "'a Cache"
  assume I: "cold_target_ok sz c"
  { fix h show "cold_target_ok sz (cold_promote c (elt_value c h))"
      using I by (simp add: cold_target_ok_def cold_promote_def) }
  { fix h show "cold_target_ok sz (cold_demote c (elt_value c h))"
      using I by (simp add: cold_target_ok_def cold_demote_def) }
  { assume "step_cold c = Inr c'" then show "cold_target_ok sz c'"
      using I by (auto simp: cold_target_ok_def elim!: step_cold_E) }
  { assume "hot_rest c = Inr c'" then show "cold_target_ok sz c'"
      using I by (auto simp: cold_target_ok_def hot_examine_def elim!: hot_rest_E) }
  { assume "test_rest c = Inr c'" then show "cold_target_ok sz c'"
      using I by (auto simp: cold_target_ok_def elim!: test_rest_E test_examine_E) }
qed


lemma Set_cold_target_ok:
  assumes "Set c k x = Some (Inr c')" and "cold_target_ok sz c"
  shows "cold_target_ok sz c'"
  using assms(1)
proof (cases rule: Set_cases)
  case (fresh c1 c2)
  from run_cold_target_ok [OF fresh(2) [unfolded evict_def]] assms(2)
  have "cold_target_ok sz c1" by (simp add: cold_target_ok_def)
  with fresh(3,4) show ?thesis
    by (auto simp: cold_target_ok_def elim!: meta_link_fix_E)
next
  case (promote v c1 c2 c3)
  from promote(3) assms(2) have "cold_target_ok sz c1"
    by (auto simp: cold_target_ok_def elim!: meta_del_E)
  from run_cold_target_ok [OF promote(4) [unfolded evict_def] this]
  have "cold_target_ok sz c2" .
  with promote(5,6) show ?thesis
    by (auto simp: cold_target_ok_def elim!: meta_link_fix_E)
next
  case (overwrite v)
  with assms(2) show ?thesis by (simp add: cold_target_ok_def)
qed

lemma Get_fst_fields:
  "mem_max (fst (Get c k)) = mem_max c" "mem_cold (fst (Get c k)) = mem_cold c"
  "count_hot (fst (Get c k)) = count_hot c" "count_cold (fst (Get c k)) = count_cold c"
  "count_test (fst (Get c k)) = count_test c" "meta (fst (Get c k)) = meta c"
  "metaKeys (fst (Get c k)) = metaKeys c" "elt_value (fst (Get c k)) = elt_value c"
  "next_elt (fst (Get c k)) = next_elt c" "next_entry (fst (Get c k)) = next_entry c"
  "hand_pos_hot (fst (Get c k)) = hand_pos_hot c" "hand_pos_cold (fst (Get c k)) = hand_pos_cold c"
  "hand_pos_test (fst (Get c k)) = hand_pos_test c"
  "hand_idx_hot (fst (Get c k)) = hand_idx_hot c" "hand_idx_cold (fst (Get c k)) = hand_idx_cold c"
  "hand_idx_test (fst (Get c k)) = hand_idx_test c"
  by (simp_all add: Get_def Let_def split: option.splits)

lemma run_ops_preserves:
  assumes "run_ops c ops = Some (Inr c')" and "I c"
    and get: "\<And>c k. I c \<Longrightarrow> I (fst (Get c k))"
    and set: "\<And>c k x c'. I c \<Longrightarrow> Set c k x = Some (Inr c') \<Longrightarrow> I c'"
  shows "I c'"
  using assms(1,2)
proof (induction c ops rule: run_ops.induct)
  case (1 c)
  then show ?case by simp
next
  case (2 c k ops)
  then show ?case using get by simp
next
  case (3 c k x ops)
  then show ?case using set by (auto simp: bindR_eq_Inr)
qed

lemma New_cold_target_ok: "1 \<le> sz \<Longrightarrow> cold_target_ok sz (New sz)"
  by (simp add: cold_target_ok_def New_def)

text \<open>
  C6. On a cache made by \<^verbatim>\<open>New\<close> with a size of at least 1, after every sequence of \<^verbatim>\<open>Get\<close>
  and \<^verbatim>\<open>Set\<close> calls that return, \<open>mem_max\<close> is the size and \<open>1 \<le> mem_cold \<le> mem_max\<close>.
\<close>

theorem mem_cold_bounds:
  assumes "1 \<le> sz" and "run_ops (New sz) ops = Some (Inr c)"
  shows "mem_max c = sz \<and> 1 \<le> mem_cold c \<and> mem_cold c \<le> mem_max c"
proof -
  have "cold_target_ok sz c"
  proof (rule run_ops_preserves [OF assms(2), where I = "cold_target_ok sz"])
    show "cold_target_ok sz (New sz)" using assms(1) by (rule New_cold_target_ok)
  next
    fix c :: "'a Cache" and k
    assume "cold_target_ok sz c"
    then show "cold_target_ok sz (fst (Get c k))"
      by (simp add: cold_target_ok_def Get_fst_fields)
  next
    fix c c' :: "'a Cache" and k x
    assume "cold_target_ok sz c" "Set c k x = Some (Inr c')"
    then show "cold_target_ok sz c'" by (rule Set_cold_target_ok [rotated])
  qed
  then show ?thesis by (simp add: cold_target_ok_def)
qed

lemma run_six_ops: "run_ops (New 2) six_ops = Some (Inr cache_six)"
  by (simp add: six_ops_def cache_six_def run_unfold list_ops cache_ops)

theorem mem_cold_bounds_witness:
  "(1::int) \<le> 2 \<and> run_ops (New 2) six_ops = Some (Inr cache_six) \<and>
   mem_max cache_six = 2 \<and> mem_cold cache_six = 1 \<and> mem_cold cache_six \<le> mem_max cache_six"
  using mem_cold_bounds [OF _ run_six_ops] run_six_ops by (simp add: cache_six_def)


subsection \<open>The capacity bounds and the length of the list\<close>

lemma hot_rest_counts:
  assumes "hot_rest c = Inr c'"
  shows "mem_max c' = mem_max c" "count_test c' = count_test c"
    "count_hot c' + count_cold c' = count_hot c + count_cold c"
  using assms by (auto simp: hot_examine_def elim!: hot_rest_E)

lemma test_rest_counts:
  assumes "test_rest c = Inr c'"
  shows "mem_max c' = mem_max c" "count_test c' \<le> count_test c"
    "count_hot c' = count_hot c" "count_cold c' = count_cold c"
  using assms by (auto elim!: test_rest_E test_examine_E)

lemma step_cold_counts:
  assumes "step_cold c = Inr c'"
  shows "mem_max c' = mem_max c" "count_test c' = count_test c"
    "count_hot c' = count_hot c" "count_cold c' = count_cold c"
  using assms by (auto elim!: step_cold_E)

lemma run_counts_post:
  assumes ret: "run p0 c0 = Some (Inr c0')"
  shows "counts_post p0 c0 c0'"
proof -
  have "\<forall>c'. (Inr c0' :: error + 'a Cache) = Inr c' \<longrightarrow> counts_post p0 c0 c'"
  proof (rule run.raw_induct [OF _ ret, where P = "\<lambda>p c r. \<forall>c'. r = Inr c' \<longrightarrow> counts_post p c c'"],
      intro allI impI, goal_cases)
    case (1 run' p c r c')
    note IH = 1(1) [rule_format, OF _ refl] and body = 1(2) [unfolded 1(3)]
    show ?case
    proof (cases p)
      case Evict
      show ?thesis
      proof (cases "mem_max c \<le> count_hot c + count_cold c")
        case True
        with body Evict obtain c1 where "run' HandCold c = Some (Inr c1)" "run' Evict c1 = Some (Inr c')"
          by (auto simp: bindR_eq_Inr)
        from IH [OF this(1)] IH [OF this(2)] Evict show ?thesis
          by (auto simp: counts_post_def)
      next
        case False with body Evict show ?thesis by (auto simp: counts_post_def)
      qed
    next
      case TestLoop
      show ?thesis
      proof (cases "mem_max c < count_test c")
        case True
        with body TestLoop obtain c1 where "run' HandTest c = Some (Inr c1)" "run' TestLoop c1 = Some (Inr c')"
          by (auto simp: bindR_eq_Inr)
        from IH [OF this(1)] IH [OF this(2)] TestLoop show ?thesis
          by (auto simp: counts_post_def)
      next
        case False with body TestLoop show ?thesis by (auto simp: counts_post_def)
      qed
    next
      case HotLoop
      show ?thesis
      proof (cases "mem_max c - mem_cold c < count_hot c")
        case True
        with body HotLoop obtain c1 where "run' HandHot c = Some (Inr c1)" "run' HotLoop c1 = Some (Inr c')"
          by (auto simp: bindR_eq_Inr)
        from IH [OF this(1)] IH [OF this(2)] HotLoop show ?thesis
          by (auto simp: counts_post_def)
      next
        case False with body HotLoop show ?thesis by (auto simp: counts_post_def)
      qed
    next
      case HandHot
      from body HandHot obtain c1 where
        c1: "(if hand_pos_hot c = hand_pos_test c then run' HandTest c else Some (Inr c)) = Some (Inr c1)"
        and c': "hot_rest c1 = Inr c'"
        by (auto simp: bindR_eq_Inr)
      have "mem_max c1 = mem_max c \<and> count_test c1 \<le> max (count_test c) (mem_max c)"
        using c1 IH [of HandTest c c1]
        by (cases "hand_pos_hot c = hand_pos_test c") (auto simp: counts_post_def)
      with hot_rest_counts [OF c'] HandHot show ?thesis
        by (auto simp: counts_post_def)
    next
      case HandTest
      from body HandTest obtain c1 where
        c1: "(if hand_pos_test c = hand_pos_cold c then run' HandCold c else Some (Inr c)) = Some (Inr c1)"
        and c': "test_rest c1 = Inr c'"
        by (auto simp: bindR_eq_Inr)
      have "mem_max c1 = mem_max c \<and> count_test c1 \<le> max (count_test c) (mem_max c)"
        using c1 IH [of HandCold c c1]
        by (cases "hand_pos_test c = hand_pos_cold c") (auto simp: counts_post_def)
      with test_rest_counts [OF c'] HandTest show ?thesis
        by (auto simp: counts_post_def)
    next
      case HandCold
      from body HandCold obtain h c1 c2 where h: "hand_pos_cold c = Some h"
        and c1: "(if ptype (entries c (elt_value c h)) = ptCold then
                        (if ref (entries c (elt_value c h)) then Some (Inr (cold_promote c (elt_value c h)))
                         else run' TestLoop (cold_demote c (elt_value c h)))
                      else Some (Inr c)) = Some (Inr c1)"
        and c2: "step_cold c1 = Inr c2" and c': "run' HotLoop c2 = Some (Inr c')"
        by (auto simp: bindR_eq_Inr Let_def split: option.splits)
      have "mem_max c1 = mem_max c \<and> count_test c1 \<le> max (count_test c) (mem_max c)"
      proof (cases "ptype (entries c (elt_value c h)) = ptCold")
        case cold: True
        show ?thesis
        proof (cases "ref (entries c (elt_value c h))")
          case True
          with cold c1 show ?thesis by (auto simp: cold_promote_def)
        next
          case False
          with cold c1 IH [of TestLoop "cold_demote c (elt_value c h)" c1] show ?thesis
            by (auto simp: counts_post_def cold_demote_def)
        qed
      next
        case False with c1 show ?thesis by simp
      qed
      with step_cold_counts [OF c2] IH [OF c'] HandCold show ?thesis
        by (auto simp: counts_post_def)
    qed
  qed
  then show ?thesis by simp
qed

lemma Set_resident_ok:
  assumes "Set c k x = Some (Inr c')" and "resident_ok c"
  shows "resident_ok c'"
  using assms(1)
proof (cases rule: Set_cases)
  case (fresh c1 c2)
  from run_counts_post [OF fresh(2) [unfolded evict_def]] assms(2) fresh(3,4)
  show ?thesis
    by (auto simp: resident_ok_def counts_post_def elim!: meta_link_fix_E)
next
  case (promote v c1 c2 c3)
  from promote(3) assms(2) have "count_test c1 \<le> mem_max c1"
    by (auto simp: resident_ok_def elim!: meta_del_E)
  with run_counts_post [OF promote(4) [unfolded evict_def]] promote(5,6)
  show ?thesis
    by (auto simp: resident_ok_def counts_post_def elim!: meta_link_fix_E)
next
  case (overwrite v)
  with assms(2) show ?thesis by (simp add: resident_ok_def)
qed


lemma index_ok_same:
  assumes "index_ok c"
    and "meta c' = meta c" "metaKeys c' = metaKeys c" "elt_value c' = elt_value c"
    and "next_elt c' = next_elt c" "next_entry c' = next_entry c"
    and "\<And>m. key (entries c' m) = key (entries c m)"
    and "count_hot c' + count_cold c' + count_test c' = count_hot c + count_cold c + count_test c"
  shows "index_ok c'"
  using assms unfolding index_ok_def by simp

lemma pending_same:
  assumes "pending k m c"
    and "metaKeys c' = metaKeys c" "next_entry c' = next_entry c"
    and "\<And>m. key (entries c' m) = key (entries c m)"
  shows "pending k m c'"
  using assms unfolding pending_def by simp

lemma index_ok_delete:
  assumes ok: "index_ok c" and k: "metaKeys c k = Some (Some e)"
    and "meta c' = remove1 e (meta c)" "metaKeys c' = (metaKeys c)(k := None)"
    and "elt_value c' = elt_value c" "next_elt c' = next_elt c" "next_entry c' = next_entry c"
    and "\<And>m. key (entries c' m) = key (entries c m)"
    and "count_hot c' + count_cold c' + count_test c' = count_hot c + count_cold c + count_test c - 1"
  shows "index_ok c'"
proof -
  from ok k have e: "e \<in> set (meta c)" "key (entries c (elt_value c e)) = k"
    unfolding index_ok_def by auto
  from ok have d: "distinct (meta c)" unfolding index_ok_def by simp
  have "length (remove1 e (meta c)) = length (meta c) - 1"
    using e(1) by (simp add: length_remove1)
  moreover have "0 < length (meta c)"
    using e(1) by (rule length_pos_if_in_set)
  ultimately have len: "int (length (remove1 e (meta c))) = int (length (meta c)) - 1"
    by linarith
  have other: "key (entries c (elt_value c e')) \<noteq> k" if "e' \<in> set (meta c)" "e' \<noteq> e" for e'
    using ok k that unfolding index_ok_def by auto
  show ?thesis
    unfolding index_ok_def
  proof (intro conjI ballI allI impI)
    show "distinct (meta c')" using d assms(3) by simp
  next
    fix e' assume "e' \<in> set (meta c')"
    then have e': "e' \<in> set (meta c)" "e' \<noteq> e" using d assms(3) by auto
    with ok show "e' < next_elt c'" "elt_value c' e' < next_entry c'"
      using assms(5-7) unfolding index_ok_def by auto
    from ok e' other [OF e']
    show "metaKeys c' (key (entries c' (elt_value c' e'))) = Some (Some e')"
      using assms(4,5,8) unfolding index_ok_def by auto
  next
    fix k' v assume "metaKeys c' k' = Some v"
    then have k': "k' \<noteq> k" "metaKeys c k' = Some v" using assms(4) by (auto split: if_splits)
    with ok obtain e' where e': "v = Some e'" "e' \<in> set (meta c)" "key (entries c (elt_value c e')) = k'"
      unfolding index_ok_def by blast
    with k'(1) e(2) have "e' \<noteq> e" by auto
    with e' d show "\<exists>e. v = Some e \<and> e \<in> set (meta c') \<and> key (entries c' (elt_value c' e)) = k'"
      using assms(3,5,8) by auto
  next
    show "int (length (meta c')) = count_hot c' + count_cold c' + count_test c'"
      using ok len assms(3,9) unfolding index_ok_def by simp
  qed
qed

lemma pending_delete:
  assumes "pending k m c"
    and "metaKeys c' = (metaKeys c)(k' := None)" "next_entry c' = next_entry c"
    and "\<And>m. key (entries c' m) = key (entries c m)"
  shows "pending k m c'"
  using assms unfolding pending_def by simp

lemma set_linked:
  "(case hot of None \<Rightarrow> True | Some h \<Rightarrow> h \<in> set xs) \<Longrightarrow> set (linked xs hot n) = insert n (set xs)"
  unfolding linked_def InsertBefore_def
  by (cases hot) (auto simp: dest: in_set_takeD in_set_dropD
      simp flip: set_append [of "take _ xs" "drop _ xs", unfolded append_take_drop_id])


lemma distinct_linked:
  assumes "distinct xs" "n \<notin> set xs"
  shows "distinct (linked xs hot n)"
proof -
  have "distinct (as @ n # bs)" if "distinct (as @ bs)" "n \<notin> set (as @ bs)" for as bs :: "eptr list"
    using that by auto
  from this [of "take i xs" "drop i xs" for i] assms show ?thesis
    by (auto simp: linked_def InsertBefore_def split: option.splits)
qed

lemma length_linked:
  "(case hot of None \<Rightarrow> True | Some h \<Rightarrow> h \<in> set xs) \<Longrightarrow> length (linked xs hot n) = Suc (length xs)"
  by (auto simp: linked_def InsertBefore_def split: option.splits)

lemma index_ok_link:
  assumes ok: "index_ok c" and p: "pending k m c"
    and hot: "case hot of None \<Rightarrow> True | Some h \<Rightarrow> h \<in> set (meta c)"
    and meta: "meta c' = linked (meta c) hot (next_elt c)"
    and ev: "elt_value c' = (elt_value c)(next_elt c := m)"
    and ne: "next_elt c' = Suc (next_elt c)"
    and mk: "metaKeys c' = (metaKeys c)(k := Some (Some (next_elt c)))"
    and nm: "next_entry c' = next_entry c"
    and keys: "\<And>m. key (entries c' m) = key (entries c m)"
    and sum: "count_hot c' + count_cold c' + count_test c' = count_hot c + count_cold c + count_test c + 1"
  shows "index_ok c'"
proof -
  let ?n = "next_elt c"
  from ok have fresh: "?n \<notin> set (meta c)" unfolding index_ok_def by auto
  have set': "set (meta c') = insert ?n (set (meta c))"
    using meta set_linked [OF hot] by simp
  have old: "key (entries c (elt_value c e)) \<noteq> k" if "e \<in> set (meta c)" for e
    using ok p that unfolding index_ok_def pending_def by auto
  show ?thesis
    unfolding index_ok_def
  proof (intro conjI ballI allI impI)
    show "distinct (meta c')"
      using ok fresh meta distinct_linked unfolding index_ok_def by simp
  next
    fix e assume "e \<in> set (meta c')"
    then consider "e = ?n" | "e \<in> set (meta c)" "e \<noteq> ?n" using set' fresh by auto
    then show "e < next_elt c'"
      using ok ne unfolding index_ok_def by cases auto
  next
    fix e assume "e \<in> set (meta c')"
    then consider "e = ?n" | "e \<in> set (meta c)" "e \<noteq> ?n" using set' fresh by auto
    then show "elt_value c' e < next_entry c'"
      using ok p ev nm unfolding index_ok_def pending_def by cases auto
  next
    fix e assume "e \<in> set (meta c')"
    then consider "e = ?n" | "e \<in> set (meta c)" "e \<noteq> ?n" using set' fresh by auto
    then show "metaKeys c' (key (entries c' (elt_value c' e))) = Some (Some e)"
    proof cases
      case 1
      with p ev mk keys show ?thesis unfolding pending_def by simp
    next
      case 2
      with ok old [OF 2(1)] ev mk keys show ?thesis unfolding index_ok_def by simp
    qed
  next
    fix k' v assume v: "metaKeys c' k' = Some v"
    show "\<exists>e. v = Some e \<and> e \<in> set (meta c') \<and> key (entries c' (elt_value c' e)) = k'"
    proof (cases "k' = k")
      case True
      with v mk p ev keys set' show ?thesis unfolding pending_def by auto
    next
      case False
      with v mk have "metaKeys c k' = Some v" by simp
      with ok obtain e where "v = Some e" "e \<in> set (meta c)" "key (entries c (elt_value c e)) = k'"
        unfolding index_ok_def by blast
      with fresh ev keys set' show ?thesis by auto
    qed
  next
    show "int (length (meta c')) = count_hot c' + count_cold c' + count_test c'"
      using ok meta length_linked [OF hot] sum unfolding index_ok_def by simp
  qed
qed

lemma run_index_ok:
  assumes "run p c = Some (Inr c')" and "index_ok c \<and> pending k m c"
  shows "index_ok c' \<and> pending k m c'"
proof (rule run_preserves [OF assms(1), where I = "\<lambda>c. index_ok c \<and> pending k m c", OF assms(2)])
  fix c c' :: "'a Cache"
  assume I: "index_ok c \<and> pending k m c"
  { fix h show "index_ok (cold_promote c (elt_value c h)) \<and> pending k m (cold_promote c (elt_value c h))"
      using I by (auto intro!: index_ok_same [of c] pending_same [of k m c] simp: cold_promote_def) }
  { fix h show "index_ok (cold_demote c (elt_value c h)) \<and> pending k m (cold_demote c (elt_value c h))"
      using I by (auto intro!: index_ok_same [of c] pending_same [of k m c] simp: cold_demote_def) }
  { assume "step_cold c = Inr c'" then show "index_ok c' \<and> pending k m c'"
      using I by (auto intro!: index_ok_same [of c] pending_same [of k m c] elim!: step_cold_E) }
  { assume "hot_rest c = Inr c'" then show "index_ok c' \<and> pending k m c'"
      using I by (auto intro!: index_ok_same [of c] pending_same [of k m c]
          simp: hot_examine_def elim!: hot_rest_E) }
  { assume "test_rest c = Inr c'"
    then obtain h c1 p i where h: "hand_pos_test c = Some h" and c1: "test_examine c h = Inr c1"
      and c': "c' = c1\<lparr>hand_pos_test := p, hand_idx_test := i\<rparr>"
      by (rule test_rest_E)
    from c1 have "index_ok c1 \<and> pending k m c1"
    proof (cases rule: test_examine_E)
      case skip
      with I show ?thesis by simp
    next
      case (delete e ph pc pt ih ic it)
      have "index_ok c1"
        by (rule index_ok_delete [OF conjunct1 [OF I] delete(2)]) (simp_all add: delete(3))
      moreover have "pending k m c1"
        by (rule pending_delete [OF conjunct2 [OF I], of _ "key (entries c (elt_value c h))"])
          (simp_all add: delete(3))
      ultimately show ?thesis ..
    qed
    then show "index_ok c' \<and> pending k m c'"
      using c' by (auto intro!: index_ok_same [of c1] pending_same [of k m c1]) }
qed


lemma index_ok_lookup:
  assumes "index_ok c"
  shows "lookup_elt c k = None \<Longrightarrow> metaKeys c k = None"
    and "lookup_elt c k = Some v \<Longrightarrow>
           metaKeys c k = Some (Some v) \<and> v \<in> set (meta c) \<and>
           key (entries c (elt_value c v)) = k \<and> elt_value c v < next_entry c"
  using assms unfolding index_ok_def lookup_elt_def
  by (auto split: option.splits)

lemma index_ok_alloc:
  assumes ok: "index_ok c"
  shows "index_ok (c\<lparr>entries := (entries c)(next_entry c := e), next_entry := Suc (next_entry c)\<rparr>)"
    (is "index_ok ?c'")
proof -
  have same: "entries ?c' (elt_value c a) = entries c (elt_value c a)"
    if "a \<in> set (meta c)" for a
    using ok that unfolding index_ok_def by auto
  have 1: "distinct (meta ?c')" using ok unfolding index_ok_def by simp
  have 2: "\<forall>a \<in> set (meta ?c'). a < next_elt ?c' \<and> elt_value ?c' a < next_entry ?c' \<and>
        metaKeys ?c' (key (entries ?c' (elt_value ?c' a))) = Some (Some a)"
  proof
    fix a assume "a \<in> set (meta ?c')"
    then have a: "a \<in> set (meta c)" by simp
    with ok have "a < next_elt c \<and> elt_value c a < next_entry c \<and>
        metaKeys c (key (entries c (elt_value c a))) = Some (Some a)"
      unfolding index_ok_def by blast
    with same [OF a] show "a < next_elt ?c' \<and> elt_value ?c' a < next_entry ?c' \<and>
        metaKeys ?c' (key (entries ?c' (elt_value ?c' a))) = Some (Some a)"
      by simp
  qed
  have 3: "\<forall>k v. metaKeys ?c' k = Some v \<longrightarrow>
        (\<exists>a. v = Some a \<and> a \<in> set (meta ?c') \<and> key (entries ?c' (elt_value ?c' a)) = k)"
  proof (intro allI impI)
    fix k v assume "metaKeys ?c' k = Some v"
    then have "metaKeys c k = Some v" by simp
    with ok obtain a where a: "v = Some a" "a \<in> set (meta c)" "key (entries c (elt_value c a)) = k"
      unfolding index_ok_def by blast
    with same [OF a(2)]
    show "\<exists>a. v = Some a \<and> a \<in> set (meta ?c') \<and> key (entries ?c' (elt_value ?c' a)) = k"
      by (intro exI [of _ a]) simp
  qed
  have 4: "int (length (meta ?c')) = count_hot ?c' + count_cold ?c' + count_test ?c'"
    using ok unfolding index_ok_def by simp
  from 1 2 3 4 show ?thesis unfolding index_ok_def by blast
qed

lemma Set_index_ok:
  assumes set: "Set c k x = Some (Inr c')" and ok: "index_ok c"
  shows "index_ok c'"
  using set
proof (cases rule: Set_cases)
  case (fresh c1 c2)
  let ?m = "next_entry c"
  let ?c0 = "c\<lparr>entries := (entries c)(?m := \<lparr>ptype = ptCold, key = k, val = x, ref = False\<rparr>),
               next_entry := Suc ?m\<rparr>"
  have "index_ok ?c0" using ok by (rule index_ok_alloc)
  moreover have "pending k ?m ?c0"
    using index_ok_lookup(1) [OF ok fresh(1)] by (simp add: pending_def)
  ultimately have c1: "index_ok c1 \<and> pending k ?m c1"
    using run_index_ok [OF fresh(2) [unfolded evict_def]] by blast
  then have key: "key (entries c1 ?m) = k" by (simp add: pending_def)
  from fresh(3) show ?thesis
  proof (rule meta_link_fix_E)
    fix ph pc pt ih ic it
    assume hot: "case hand_pos_hot c1 of None \<Rightarrow> True | Some h \<Rightarrow> h \<in> set (meta c1)"
      and c2: "c2 = c1\<lparr>meta := linked (meta c1) (hand_pos_hot c1) (next_elt c1),
                 elt_value := (elt_value c1)(next_elt c1 := ?m), next_elt := Suc (next_elt c1),
                 metaKeys := (metaKeys c1)(key (entries c1 ?m) := Some (Some (next_elt c1))),
                 hand_pos_hot := ph, hand_pos_cold := pc, hand_pos_test := pt,
                 hand_idx_hot := ih, hand_idx_cold := ic, hand_idx_test := it\<rparr>"
    show ?thesis
      by (rule index_ok_link [OF conjunct1 [OF c1] conjunct2 [OF c1] hot])
        (simp_all add: fresh(4) c2 key)
  qed
next
  case (promote v c1 c2 c3)
  let ?m = "elt_value c v"
  note v = index_ok_lookup(2) [OF ok promote(1)]
  from promote(3) v obtain ph pc pt ih ic it where
    c1: "c1 = c\<lparr>mem_cold := (if mem_cold c < mem_max c then mem_cold c + 1 else mem_cold c),
                 entries := (entries c)(?m := (entries c ?m)\<lparr>ref := False, val := x, ptype := ptHot\<rparr>),
                 count_test := count_test c - 1,
                 metaKeys := (metaKeys c)(k := None), meta := remove1 v (meta c),
                 hand_pos_hot := ph, hand_pos_cold := pc, hand_pos_test := pt,
                 hand_idx_hot := ih, hand_idx_cold := ic, hand_idx_test := it\<rparr>"
    by (auto elim!: meta_del_E)
  have "index_ok c1"
    by (rule index_ok_delete [OF ok conjunct1 [OF v]]) (simp_all add: c1)
  moreover have "pending k ?m c1"
    using v by (simp add: pending_def c1)
  ultimately have c2: "index_ok c2 \<and> pending k ?m c2"
    using run_index_ok [OF promote(4) [unfolded evict_def]] by blast
  then have key: "key (entries c2 ?m) = k" by (simp add: pending_def)
  from promote(5) show ?thesis
  proof (rule meta_link_fix_E)
    fix ph pc pt ih ic it
    assume hot: "case hand_pos_hot c2 of None \<Rightarrow> True | Some h \<Rightarrow> h \<in> set (meta c2)"
      and c3: "c3 = c2\<lparr>meta := linked (meta c2) (hand_pos_hot c2) (next_elt c2),
                 elt_value := (elt_value c2)(next_elt c2 := ?m), next_elt := Suc (next_elt c2),
                 metaKeys := (metaKeys c2)(key (entries c2 ?m) := Some (Some (next_elt c2))),
                 hand_pos_hot := ph, hand_pos_cold := pc, hand_pos_test := pt,
                 hand_idx_hot := ih, hand_idx_cold := ic, hand_idx_test := it\<rparr>"
    show ?thesis
      by (rule index_ok_link [OF conjunct1 [OF c2] conjunct2 [OF c2] hot])
        (simp_all add: promote(6) c3 key)
  qed
next
  case (overwrite v)
  show ?thesis
    by (rule index_ok_same [OF ok]) (simp_all add: overwrite(3))
qed

lemma Get_index_ok: "index_ok c \<Longrightarrow> index_ok (fst (Get c k))"
  by (rule index_ok_same [of c]) (auto simp: Get_fst_fields, auto simp: Get_def Let_def split: option.splits)

lemma New_index_ok: "index_ok (New sz)"
  by (simp add: index_ok_def New_def)

text \<open>
  C1. On a cache made by \<^verbatim>\<open>New\<close> with a size of at least 1, after every sequence of \<^verbatim>\<open>Get\<close>
  and \<^verbatim>\<open>Set\<close> calls that return: \<open>count_hot + count_cold \<le> mem_max\<close>,
  \<open>count_test \<le> mem_max\<close>, the number of list nodes is \<open>count_hot + count_cold + count_test\<close>,
  and so it is at most \<open>2 * mem_max\<close>.
\<close>

theorem ring_size_bounds:
  assumes "1 \<le> sz" and "run_ops (New sz) ops = Some (Inr c)"
  shows "count_hot c + count_cold c \<le> mem_max c \<and> count_test c \<le> mem_max c \<and>
         int (length (meta c)) = count_hot c + count_cold c + count_test c \<and>
         int (length (meta c)) \<le> 2 * mem_max c"
proof -
  have "resident_ok c \<and> index_ok c"
  proof (rule run_ops_preserves [OF assms(2), where I = "\<lambda>c. resident_ok c \<and> index_ok c"])
    show "resident_ok (New sz) \<and> index_ok (New sz)"
      using assms(1) New_index_ok by (simp add: resident_ok_def New_def)
  next
    fix c :: "'a Cache" and k
    assume "resident_ok c \<and> index_ok c"
    then show "resident_ok (fst (Get c k)) \<and> index_ok (fst (Get c k))"
      by (simp add: resident_ok_def Get_fst_fields Get_index_ok)
  next
    fix c c' :: "'a Cache" and k x
    assume "resident_ok c \<and> index_ok c" "Set c k x = Some (Inr c')"
    then show "resident_ok c' \<and> index_ok c'"
      using Set_resident_ok Set_index_ok by blast
  qed
  then show ?thesis by (auto simp: resident_ok_def index_ok_def)
qed

theorem ring_size_bounds_witness:
  "(1::int) \<le> 2 \<and> run_ops (New 2) six_ops = Some (Inr cache_six) \<and>
   count_hot cache_six + count_cold cache_six = 2 \<and> count_test cache_six = 1 \<and>
   length (meta cache_six) = 3 \<and> int (length (meta cache_six)) \<le> 2 * mem_max cache_six"
  using ring_size_bounds [OF _ run_six_ops] run_six_ops by (simp add: cache_six_def)


section \<open>Storing nil\<close>

lemma evict_free: "count_hot c + count_cold c < mem_max c \<Longrightarrow> evict c = Some (Inr c)"
  by (simp add: evict_def run_Evict)

text \<open>
  C10. On a cache with free capacity (\<open>count_hot + count_cold < mem_max\<close>), \<^verbatim>\<open>Set(k, nil)\<close> for a
  key \<open>k\<close> that is not in the index, when it returns, leaves a node for \<open>k\<close> in the list
  that is cold, holds nil and is counted in \<open>count_cold\<close>; \<^verbatim>\<open>Get(k)\<close> then returns the miss
  value and changes nothing, the reference bit included.
\<close>

theorem Set_nil_then_Get_misses:
  assumes free: "count_hot c + count_cold c < mem_max c"
    and fresh: "lookup_elt c k = None"
    and set: "Set c k None = Some (Inr c')"
  shows "Get c' k = (c', None) \<and>
         lookup_elt c' k = Some (next_elt c) \<and> next_elt c \<in> set (meta c') \<and>
         entries c' (elt_value c' (next_elt c)) = \<lparr>ptype = ptCold, key = k, val = None, ref = False\<rparr> \<and>
         count_cold c' = count_cold c + 1"
  using set
proof (cases rule: Set_cases)
  case (fresh c1 c2)
  let ?c0 = "c\<lparr>entries := (entries c)(next_entry c := \<lparr>ptype = ptCold, key = k, val = None, ref = False\<rparr>),
               next_entry := Suc (next_entry c)\<rparr>"
  from free have "evict ?c0 = Some (Inr ?c0)" by (intro evict_free) simp
  with fresh(2) have c1: "c1 = ?c0" by simp
  from fresh(3) show ?thesis
  proof (rule meta_link_fix_E)
    fix ph pc pt ih ic it
    assume hot: "case hand_pos_hot c1 of None \<Rightarrow> True | Some h \<Rightarrow> h \<in> set (meta c1)"
      and c2: "c2 = c1\<lparr>meta := linked (meta c1) (hand_pos_hot c1) (next_elt c1),
                 elt_value := (elt_value c1)(next_elt c1 := next_entry c),
                 next_elt := Suc (next_elt c1),
                 metaKeys := (metaKeys c1)(key (entries c1 (next_entry c)) := Some (Some (next_elt c1))),
                 hand_pos_hot := ph, hand_pos_cold := pc, hand_pos_test := pt,
                 hand_idx_hot := ih, hand_idx_cold := ic, hand_idx_test := it\<rparr>"
    have "next_elt c \<in> set (meta c')"
      using set_linked [OF hot] by (simp add: fresh(4) c2 c1)
    then show ?thesis
      by (simp add: fresh(4) c2 c1 Get_def lookup_elt_def Let_def)
  qed
next
  case (promote v c1 c2 c3)
  with fresh show ?thesis by simp
next
  case (overwrite v)
  with fresh show ?thesis by simp
qed

lemma Set_New_nil: "Set (New 1) ''a'' None = Some (Inr cache_nil)"
  by (simp add: cache_nil_def run_unfold list_ops cache_ops)

theorem Set_nil_then_Get_misses_witness:
  "count_hot (New 1 :: int Cache) + count_cold (New 1 :: int Cache) < mem_max (New 1 :: int Cache) \<and>
   lookup_elt (New 1 :: int Cache) ''a'' = None \<and>
   Set (New 1) ''a'' None = Some (Inr cache_nil) \<and>
   Get cache_nil ''a'' = (cache_nil, None) \<and>
   ptype (entries cache_nil (elt_value cache_nil 0)) = ptCold \<and> count_cold cache_nil = 1"
proof -
  have 1: "count_hot (New 1 :: int Cache) + count_cold (New 1 :: int Cache) < mem_max (New 1 :: int Cache)"
    and 2: "lookup_elt (New 1 :: int Cache) ''a'' = None"
    by (simp_all add: New_def lookup_elt_def)
  from Set_nil_then_Get_misses [OF 1 2 Set_New_nil] 1 2 Set_New_nil show ?thesis
    by (simp add: New_def cache_nil_def)
qed


section \<open>Linking a node\<close>

subsection \<open>Positions in a list without repetition\<close>

lemma find_idx_less [simp]: "find_idx xs e < length xs \<longleftrightarrow> e \<in> set xs"
  by (induction xs) auto

lemma find_idx_le: "find_idx xs e \<le> length xs"
  by (induction xs) auto

lemma find_idx_notin: "e \<notin> set xs \<Longrightarrow> find_idx xs e = length xs"
  by (induction xs) auto

lemma nth_find_idx [simp]: "e \<in> set xs \<Longrightarrow> xs ! find_idx xs e = e"
  by (induction xs) auto

lemma find_idx_nth: "distinct xs \<Longrightarrow> j < length xs \<Longrightarrow> find_idx xs (xs ! j) = j"
proof (induction xs arbitrary: j)
  case Nil
  then show ?case by simp
next
  case (Cons x xs)
  then show ?case by (cases j) auto
qed

lemma find_idx_append:
  "find_idx (as @ bs) e = (if e \<in> set as then find_idx as e else length as + find_idx bs e)"
  by (induction as) auto

lemma find_idx_take:
  "e \<in> set xs \<Longrightarrow> find_idx xs e < i \<Longrightarrow> e \<in> set (take i xs) \<and> find_idx (take i xs) e = find_idx xs e"
proof (induction xs arbitrary: i)
  case Nil
  then show ?case by simp
next
  case (Cons x xs)
  then show ?case by (cases i) auto
qed

lemma find_idx_drop:
  "distinct xs \<Longrightarrow> e \<in> set xs \<Longrightarrow> i \<le> find_idx xs e \<Longrightarrow>
     e \<notin> set (take i xs) \<and> e \<in> set (drop i xs) \<and> find_idx (drop i xs) e = find_idx xs e - i"
proof (induction xs arbitrary: i)
  case Nil
  then show ?case by simp
next
  case (Cons x xs)
  show ?case
  proof (cases i)
    case 0
    then show ?thesis using Cons.prems by simp
  next
    case (Suc i')
    with Cons.prems have "e \<noteq> x" by auto
    with Cons Suc show ?thesis by auto
  qed
qed

text \<open>The position of an old element after \<open>n\<close> went in at position \<open>i\<close>.\<close>

lemma find_idx_insert:
  assumes "distinct xs" "e \<in> set xs" "n \<notin> set xs" "i \<le> length xs"
  shows "find_idx (take i xs @ n # drop i xs) e =
           (if find_idx xs e < i then find_idx xs e else Suc (find_idx xs e))"
proof (cases "find_idx xs e < i")
  case True
  with find_idx_take [OF assms(2) True] show ?thesis by (simp add: find_idx_append)
next
  case False
  then have "i \<le> find_idx xs e" by simp
  from find_idx_drop [OF assms(1,2) this] assms(2,3,4) False show ?thesis
    by (auto simp: find_idx_append)
qed

lemma find_idx_insert_new:
  assumes "n \<notin> set xs" "i \<le> length xs"
  shows "find_idx (take i xs @ n # drop i xs) n = i"
  using assms by (auto simp: find_idx_append dest: in_set_takeD)

lemma elt_Prev_Next:
  assumes "distinct ys" "e \<in> set ys" "0 < find_idx ys e"
  shows "elt_Prev ys e = Some (ys ! (find_idx ys e - 1))"
    and "elt_Next ys (ys ! (find_idx ys e - 1)) = Some e"
proof -
  let ?j = "find_idx ys e"
  have j: "?j < length ys" using assms(2) by simp
  show "elt_Prev ys e = Some (ys ! (?j - 1))"
    using assms by (simp add: elt_Prev_def)
  have j1: "?j - 1 < length ys" using j by arith
  have "find_idx ys (ys ! (?j - 1)) = ?j - 1"
    using assms(1) j1 by (rule find_idx_nth)
  moreover have "ys ! (?j - 1) \<in> set ys" using j1 by (rule nth_mem)
  moreover have "Suc (?j - 1) = ?j" using assms(3) by simp
  ultimately show "elt_Next ys (ys ! (?j - 1)) = Some e"
    using assms(2) j unfolding elt_Next_def by (simp del: find_idx_less)
qed


lemma hand_at_Some: "hand_at xs (Some e) i \<longleftrightarrow> e \<in> set xs \<and> i = int (find_idx xs e)"
  by (simp add: hand_at_def)

lemma hand_atE:
  assumes "hand_at xs h i"
  obtains e where "h = Some e" "e \<in> set xs" "i = int (find_idx xs e)"
  using assms by (auto simp: hand_at_def split: option.splits)

text \<open>A hand at or after the hot hand steps back onto its predecessor in the new list and forward again.\<close>

lemma insert_back_forth:
  assumes d: "distinct xs" and n: "n \<notin> set xs" and hh: "hh \<in> set xs" and e: "e \<in> set xs"
    and le: "find_idx xs hh \<le> find_idx xs e"
  defines "ys \<equiv> InsertBefore xs n hh"
  shows "\<exists>p. elt_Prev ys e = Some p \<and> elt_Next ys p = Some e \<and> (e = hh \<longrightarrow> p = n)"
proof -
  let ?i = "find_idx xs hh"
  have ys: "ys = take ?i xs @ n # drop ?i xs" using hh by (simp add: ys_def InsertBefore_def)
  have i: "?i \<le> length xs" by (rule find_idx_le)
  have dy: "distinct ys"
    using d n unfolding ys by (auto dest: in_set_takeD in_set_dropD
        simp: set_take_disj_set_drop_if_distinct)
  have ey: "e \<in> set ys" using e unfolding ys
    by (metis Un_iff append_take_drop_id list.set_intros(2) set_append)
  have fe: "find_idx ys e = Suc (find_idx xs e)"
    unfolding ys using find_idx_insert [OF d e n i] le by simp
  then have pos: "0 < find_idx ys e" by simp
  from elt_Prev_Next [OF dy ey pos] fe
  have 1: "elt_Prev ys e = Some (ys ! find_idx xs e)" "elt_Next ys (ys ! find_idx xs e) = Some e"
    by simp_all
  have "ys ! ?i = n" unfolding ys using i by (simp add: nth_append)
  with 1 show ?thesis by auto
qed


lemma advance_Some: "elt_Next xs p = Some e \<Longrightarrow> advance xs (Some p) i = Inr (Some e, i + 1)"
  by (simp add: advance_def hand_Next_def)

lemma find_idx_eq_iff:
  "a \<in> set xs \<Longrightarrow> b \<in> set xs \<Longrightarrow> find_idx xs a = find_idx xs b \<longleftrightarrow> a = b"
  by (metis nth_find_idx)

lemma meta_link_eval:
  assumes "hand_pos_hot c = Some h" "h \<in> set (meta c)"
    and "(if hand_idx_cold c \<ge> hand_idx_hot c
          then hand_Prev (InsertBefore (meta c) (next_elt c) h) (hand_pos_cold c)
          else Inr (hand_pos_cold c)) = Inr pc"
    and "(if hand_idx_test c \<ge> hand_idx_hot c
          then hand_Prev (InsertBefore (meta c) (next_elt c) h) (hand_pos_test c)
          else Inr (hand_pos_test c)) = Inr pt"
  shows "meta_link c m =
     Inr (c\<lparr>meta := InsertBefore (meta c) (next_elt c) h,
            elt_value := (elt_value c)(next_elt c := m), next_elt := Suc (next_elt c),
            metaKeys := (metaKeys c)(key (entries c m) := Some (Some (next_elt c))),
            hand_pos_hot := elt_Prev (InsertBefore (meta c) (next_elt c) h) h,
            hand_pos_cold := pc, hand_pos_test := pt\<rparr>)"
  unfolding meta_link_def Let_def assms(1,3,4) option.case using assms(2) by simp

lemma meta_fix_eval:
  assumes "(if hand_idx_cold c > hand_idx_hot c
            then advance (meta c) (hand_pos_cold c) (hand_idx_cold c)
            else Inr (hand_pos_cold c, hand_idx_cold c)) = Inr (pc, ic)"
    and "(if hand_idx_test c \<ge> hand_idx_hot c
            then advance (meta c) (hand_pos_test c) (hand_idx_test c)
            else Inr (hand_pos_test c, hand_idx_test c)) = Inr (pt, it)"
    and "advance (meta c) (hand_pos_hot c) (hand_idx_hot c) = Inr (ph, ih)"
  shows "meta_fix c =
     Inr (c\<lparr>hand_pos_hot := ph, hand_pos_cold := pc, hand_pos_test := pt,
            hand_idx_hot := ih, hand_idx_cold := ic, hand_idx_test := it\<rparr>)"
  unfolding meta_fix_def assms by simp

text \<open>The linking part of \<^verbatim>\<open>meta_add\<close> on a list with live hands and right indices.\<close>

lemma meta_link_fix_live:
  assumes live: "hands_live c"
    and hh: "hand_pos_hot c = Some hh" and hc: "hand_pos_cold c = Some hc"
    and ht: "hand_pos_test c = Some ht"
  shows "bindE (meta_link c m) meta_fix =
     Inr (c\<lparr>meta := InsertBefore (meta c) (next_elt c) hh,
            elt_value := (elt_value c)(next_elt c := m), next_elt := Suc (next_elt c),
            metaKeys := (metaKeys c)(key (entries c m) := Some (Some (next_elt c))),
            hand_pos_hot := Some hh,
            hand_pos_cold := Some (if hc = hh then next_elt c else hc),
            hand_pos_test := Some ht,
            hand_idx_hot := hand_idx_hot c + 1,
            hand_idx_cold := (if hand_idx_cold c > hand_idx_hot c then hand_idx_cold c + 1
                              else hand_idx_cold c),
            hand_idx_test := (if hand_idx_test c \<ge> hand_idx_hot c then hand_idx_test c + 1
                              else hand_idx_test c)\<rparr>)"
proof -
  let ?xs = "meta c" and ?n = "next_elt c"
  let ?ys = "InsertBefore ?xs ?n hh"
  from live hh hc ht have d: "distinct ?xs" and n: "?n \<notin> set ?xs"
    and hhx: "hh \<in> set ?xs" and ih: "hand_idx_hot c = int (find_idx ?xs hh)"
    and hcx: "hc \<in> set ?xs" and ic: "hand_idx_cold c = int (find_idx ?xs hc)"
    and htx: "ht \<in> set ?xs" and it: "hand_idx_test c = int (find_idx ?xs ht)"
    by (simp_all add: hands_live_def hand_at_Some)
  \<comment> \<open>the hot hand\<close>
  from insert_back_forth [OF d n hhx hhx] have
    hot1: "elt_Prev ?ys hh = Some ?n" and hot2: "elt_Next ?ys ?n = Some hh"
    by auto
  \<comment> \<open>the cold hand\<close>
  obtain pc where
    cold1: "(if hand_idx_cold c \<ge> hand_idx_hot c then hand_Prev ?ys (Some hc) else Inr (Some hc))
              = Inr (Some pc)"
    and cold2: "(if hand_idx_cold c > hand_idx_hot c then advance ?ys (Some pc) (hand_idx_cold c)
                 else Inr (Some pc, hand_idx_cold c))
              = Inr (Some (if hc = hh then ?n else hc),
                     if hand_idx_cold c > hand_idx_hot c then hand_idx_cold c + 1 else hand_idx_cold c)"
  proof (cases "find_idx ?xs hh \<le> find_idx ?xs hc")
    case True
    from insert_back_forth [OF d n hhx hcx True] obtain p where
      p: "elt_Prev ?ys hc = Some p" "elt_Next ?ys p = Some hc" "hc = hh \<longrightarrow> p = ?n"
      by blast
    show ?thesis
    proof (rule that [of p])
      show "(if hand_idx_cold c \<ge> hand_idx_hot c then hand_Prev ?ys (Some hc) else Inr (Some hc))
              = Inr (Some p)"
        using True p(1) by (simp add: ih ic hand_Prev_def)
      show "(if hand_idx_cold c > hand_idx_hot c then advance ?ys (Some p) (hand_idx_cold c)
                 else Inr (Some p, hand_idx_cold c))
              = Inr (Some (if hc = hh then ?n else hc),
                     if hand_idx_cold c > hand_idx_hot c then hand_idx_cold c + 1 else hand_idx_cold c)"
      proof (cases "hc = hh")
        case True
        with p(3) show ?thesis by (simp add: ih ic)
      next
        case False
        with hcx hhx have "find_idx ?xs hh \<noteq> find_idx ?xs hc" by (simp add: find_idx_eq_iff)
        with True False advance_Some [OF p(2)] show ?thesis by (simp add: ih ic)
      qed
    qed
  next
    case False
    then have "hc \<noteq> hh" by auto
    with False show ?thesis by (intro that [of hc]) (simp_all add: ih ic)
  qed
  \<comment> \<open>the test hand\<close>
  obtain pt where
    test1: "(if hand_idx_test c \<ge> hand_idx_hot c then hand_Prev ?ys (Some ht) else Inr (Some ht))
              = Inr (Some pt)"
    and test2: "(if hand_idx_test c \<ge> hand_idx_hot c then advance ?ys (Some pt) (hand_idx_test c)
                 else Inr (Some pt, hand_idx_test c))
              = Inr (Some ht,
                     if hand_idx_test c \<ge> hand_idx_hot c then hand_idx_test c + 1 else hand_idx_test c)"
  proof (cases "find_idx ?xs hh \<le> find_idx ?xs ht")
    case True
    from insert_back_forth [OF d n hhx htx True] obtain p where
      p: "elt_Prev ?ys ht = Some p" "elt_Next ?ys p = Some ht"
      by blast
    with True advance_Some [OF p(2)] show ?thesis
      by (intro that [of p]) (simp_all add: ih it hand_Prev_def)
  next
    case False
    then show ?thesis by (intro that [of ht]) (simp_all add: ih it)
  qed
  let ?c1 = "c\<lparr>meta := ?ys, elt_value := (elt_value c)(?n := m), next_elt := Suc ?n,
            metaKeys := (metaKeys c)(key (entries c m) := Some (Some ?n)),
            hand_pos_hot := Some ?n, hand_pos_cold := Some pc, hand_pos_test := Some pt\<rparr>"
  have link: "meta_link c m = Inr ?c1"
    using meta_link_eval [OF hh hhx cold1 [folded hc] test1 [folded ht], of m] hot1 by simp
  have "meta_fix ?c1 =
     Inr (?c1\<lparr>hand_pos_hot := Some hh, hand_pos_cold := Some (if hc = hh then ?n else hc),
            hand_pos_test := Some ht,
            hand_idx_hot := hand_idx_hot c + 1,
            hand_idx_cold := (if hand_idx_cold c > hand_idx_hot c then hand_idx_cold c + 1
                              else hand_idx_cold c),
            hand_idx_test := (if hand_idx_test c \<ge> hand_idx_hot c then hand_idx_test c + 1
                              else hand_idx_test c)\<rparr>)"
  proof (rule meta_fix_eval)
    show "(if hand_idx_cold ?c1 > hand_idx_hot ?c1
            then advance (meta ?c1) (hand_pos_cold ?c1) (hand_idx_cold ?c1)
            else Inr (hand_pos_cold ?c1, hand_idx_cold ?c1)) =
          Inr (Some (if hc = hh then ?n else hc),
               if hand_idx_cold c > hand_idx_hot c then hand_idx_cold c + 1 else hand_idx_cold c)"
      using cold2 by (simp split: if_splits)
    show "(if hand_idx_test ?c1 \<ge> hand_idx_hot ?c1
            then advance (meta ?c1) (hand_pos_test ?c1) (hand_idx_test ?c1)
            else Inr (hand_pos_test ?c1, hand_idx_test ?c1)) =
          Inr (Some ht,
               if hand_idx_test c \<ge> hand_idx_hot c then hand_idx_test c + 1 else hand_idx_test c)"
      using test2 by (simp split: if_splits)
    show "advance (meta ?c1) (hand_pos_hot ?c1) (hand_idx_hot ?c1) = Inr (Some hh, hand_idx_hot c + 1)"
      using advance_Some [OF hot2] by simp
  qed
  with link show ?thesis by simp
qed


text \<open>
  C8 (amended). After \<^verbatim>\<open>evict\<close>, on a non-empty list with live hands, \<^verbatim>\<open>meta_add\<close> returns,
  the new node is inserted immediately before the node that \<open>hand_hot\<close> points at, and
  \<open>hand_hot\<close> and \<open>hand_test\<close> point at the same nodes as before the insertion;
  \<open>hand_cold\<close> does too unless it coincided with \<open>hand_hot\<close>, and then it points at the new
  node.
\<close>

theorem meta_add_hands:
  assumes "evict c = Some (Inr c1)" and "hands_live c1"
    and "hand_pos_hot c1 = Some hh" and "hand_pos_cold c1 = Some hc" and "hand_pos_test c1 = Some ht"
  shows "\<exists>c'. meta_add c m = Some (Inr c') \<and>
           meta c' = InsertBefore (meta c1) (next_elt c1) hh \<and>
           elt_Next (meta c') (next_elt c1) = Some hh \<and> elt_value c' (next_elt c1) = m \<and>
           hand_pos_hot c' = Some hh \<and> hand_pos_test c' = Some ht \<and>
           hand_pos_cold c' = Some (if hc = hh then next_elt c1 else hc)"
proof -
  from assms(2,3) have "distinct (meta c1)" "next_elt c1 \<notin> set (meta c1)" "hh \<in> set (meta c1)"
    by (simp_all add: hands_live_def hand_at_Some)
  from insert_back_forth [OF this this(3)]
  have "elt_Next (InsertBefore (meta c1) (next_elt c1) hh) (next_elt c1) = Some hh"
    by auto
  then show ?thesis
    by (simp add: meta_add_def assms(1) meta_link_fix_live [OF assms(2-5)])
qed

lemma Set_New2_a: "Set (New 2) ''a'' (Some 1) = Some (Inr cache_a2)"
  by (simp add: cache_a2_def cache_a_def run_unfold list_ops cache_ops)

lemma evict_cache_a2b: "evict cache_a2b = Some (Inr cache_a2b)"
  by (rule evict_free) (simp add: cache_a2b_def cache_a2_def cache_a_def)

lemma hands_live_cache_a2b: "hands_live cache_a2b"
  by (simp add: hands_live_def hand_at_def cache_a2b_def cache_a2_def cache_a_def)

theorem meta_add_hands_witness:
  "evict cache_a2b = Some (Inr cache_a2b) \<and> hands_live cache_a2b \<and>
   hand_pos_hot cache_a2b = Some 0 \<and> hand_pos_cold cache_a2b = Some 0 \<and>
   hand_pos_test cache_a2b = Some 0 \<and>
   (\<exists>c'. meta_add cache_a2b (Suc 0) = Some (Inr c') \<and> meta c' = [Suc 0, 0] \<and>
         hand_pos_hot c' = Some 0 \<and> hand_pos_test c' = Some 0 \<and> hand_pos_cold c' = Some (Suc 0))"
proof -
  have h: "hand_pos_hot cache_a2b = Some 0" "hand_pos_cold cache_a2b = Some 0"
    "hand_pos_test cache_a2b = Some 0"
    by (simp_all add: cache_a2b_def cache_a2_def cache_a_def)
  from meta_add_hands [OF evict_cache_a2b hands_live_cache_a2b h, of "Suc 0"]
  obtain c' where "meta_add cache_a2b (Suc 0) = Some (Inr c')"
    "meta c' = InsertBefore (meta cache_a2b) (next_elt cache_a2b) 0"
    "hand_pos_hot c' = Some 0" "hand_pos_test c' = Some 0"
    "hand_pos_cold c' = Some (next_elt cache_a2b)"
    by auto
  then have "meta_add cache_a2b (Suc 0) = Some (Inr c') \<and> meta c' = [Suc 0, 0] \<and>
         hand_pos_hot c' = Some 0 \<and> hand_pos_test c' = Some 0 \<and> hand_pos_cold c' = Some (Suc 0)"
    by (simp add: InsertBefore_def cache_a2b_def cache_a2_def cache_a_def)
  with evict_cache_a2b hands_live_cache_a2b h show ?thesis by blast
qed

text \<open>
  C8 (as stated, refuted). On the cache of size 2 that holds the key \<open>a\<close>, all hands on its
  node, \<^verbatim>\<open>meta_add\<close> of the entry for \<open>b\<close> leaves \<open>hand_cold\<close> on the new node, not on the node
  it pointed at before.
\<close>

theorem meta_add_moves_cold_hand:
  "Set (New 2) ''a'' (Some 1) = Some (Inr cache_a2) \<and>
   meta cache_a2b = [0] \<and> hand_pos_cold cache_a2b = Some 0 \<and>
   meta_add cache_a2b (Suc 0) = Some (Inr cache_ab) \<and>
   meta cache_ab = [Suc 0, 0] \<and> hand_pos_cold cache_ab = Some (Suc 0) \<and>
   hand_pos_cold cache_ab \<noteq> hand_pos_cold cache_a2b"
  by (simp add: cache_ab_def cache_a2b_def cache_a2_def cache_a_def run_unfold list_ops cache_ops)


end
